theory Spec2Isabelle
  imports Main "HOL-Library.Char_ord" "HOL-Library.List_Lexorder" "HOL-Library.Word"
begin

section \<open>Data model of the account cache\<close>

text \<open>
  The embedding follows \<^verbatim>\<open>AccountCache\<close> (the class extending \<^verbatim>\<open>Cache\<close>):
  \<^verbatim>\<open>_saveCachePreState\<close>, \<^verbatim>\<open>put\<close>, \<^verbatim>\<open>get\<close>, \<^verbatim>\<open>del\<close>, \<^verbatim>\<open>flush\<close>, \<^verbatim>\<open>revert\<close> and
  \<^verbatim>\<open>commit\<close>. A cache key is the hex string of an address
  (\<^verbatim>\<open>address.buf.toString('hex')\<close>); the model takes that string as the address.
  Debug logging has no effect on the state and is left out.
\<close>

type_synonym Buffer = "8 word list"

type_synonym cacheKeyHex = string

text \<open>The only exception the methods can raise: a method call on \<^verbatim>\<open>undefined\<close>.\<close>

datatype error = TypeError

text \<open>\<^verbatim>\<open>type AccountCacheElement = { accountRLP: Buffer | undefined }\<close>\<close>

datatype AccountCacheElement = AccountCacheElement (accountRLP: "Buffer option")

subsection \<open>The ordered map of js-sdsl\<close>

text \<open>
  \<^verbatim>\<open>OrderedMap\<close> is a map kept in ascending key order with one entry per key. It is
  represented by the list of its entries in iteration order (\<^verbatim>\<open>begin()\<close> to \<^verbatim>\<open>end()\<close>).
  A value type \<open>'v option\<close> stands for \<^verbatim>\<open>V | undefined\<close>.
\<close>

type_synonym ('k, 'v) OrderedMap = "('k \<times> 'v) list"

text \<open>\<^verbatim>\<open>m.find(k)\<close>: \<open>None\<close> is the iterator \<^verbatim>\<open>m.end()\<close>, \<open>Some v\<close> an iterator at the entry.\<close>

definition find_key :: "'k \<Rightarrow> ('k, 'v) OrderedMap \<Rightarrow> 'v option" where
  "find_key k m = map_of m k"

text \<open>\<^verbatim>\<open>m.getElementByKey(k)\<close>: the value stored, \<^verbatim>\<open>undefined\<close> (\<open>None\<close>) without entry.\<close>

definition getElementByKey :: "'k \<Rightarrow> ('k, 'v) OrderedMap \<Rightarrow> 'v option" where
  "getElementByKey k m = map_of m k"

fun setElement :: "'k::linorder \<Rightarrow> 'v \<Rightarrow> ('k, 'v) OrderedMap \<Rightarrow> ('k, 'v) OrderedMap" where
  "setElement k v [] = [(k, v)]"
| "setElement k v (e # m) =
     (if k = fst e then (k, v) # m
      else if k < fst e then (k, v) # e # m
      else e # setElement k v m)"

definition eraseElementByKey :: "'k \<Rightarrow> ('k, 'v) OrderedMap \<Rightarrow> ('k, 'v) OrderedMap" where
  "eraseElementByKey k m = filter (\<lambda>e. fst e \<noteq> k) m"

text \<open>The representation invariant: keys strictly ascending.\<close>

definition ordered :: "('k::linorder, 'v) OrderedMap \<Rightarrow> bool" where
  "ordered m = sorted_wrt (<) (map fst m)"

subsection \<open>The bounded store\<close>

text \<open>
  Modelled from the spec: the bounded backend is the \<^verbatim>\<open>lru-cache\<close> package, which is
  not part of the sources. The spec describes it as a store of fixed capacity where
  inserting beyond capacity evicts the least-recently-used entry. The entries are listed
  most recently used first; \<^verbatim>\<open>get\<close> and \<^verbatim>\<open>set\<close> make their key the most recent one.
\<close>

datatype 'v LRUCache = LRUCache (max_entries: nat) (entries: "(cacheKeyHex \<times> 'v) list")

definition lru_get :: "cacheKeyHex \<Rightarrow> 'v LRUCache \<Rightarrow> 'v option \<times> 'v LRUCache" where
  "lru_get k c =
     (case map_of (entries c) k of
        None \<Rightarrow> (None, c)
      | Some v \<Rightarrow>
          (Some v, LRUCache (max_entries c) ((k, v) # filter (\<lambda>e. fst e \<noteq> k) (entries c))))"

definition lru_set :: "cacheKeyHex \<Rightarrow> 'v \<Rightarrow> 'v LRUCache \<Rightarrow> 'v LRUCache" where
  "lru_set k v c =
     LRUCache (max_entries c)
       (take (max_entries c) ((k, v) # filter (\<lambda>e. fst e \<noteq> k) (entries c)))"

definition lru_delete :: "cacheKeyHex \<Rightarrow> 'v LRUCache \<Rightarrow> 'v LRUCache" where
  "lru_delete k c = LRUCache (max_entries c) (filter (\<lambda>e. fst e \<noteq> k) (entries c))"

subsection \<open>The cache object\<close>

text \<open>
  The fields \<^verbatim>\<open>_checkpoints\<close>, \<^verbatim>\<open>_diffCache\<close>, \<^verbatim>\<open>_lruCache\<close>, \<^verbatim>\<open>_orderedMapCache\<close> and
  \<^verbatim>\<open>_stats\<close> are declared in the base class. Exactly one of the two backends is
  set; the methods test \<^verbatim>\<open>if (this._lruCache)\<close>, which is the case distinction on
  \<open>backend\<close>.
\<close>

datatype backend =
    LruCache "AccountCacheElement LRUCache"
  | OrderedMapCache "(cacheKeyHex, AccountCacheElement) OrderedMap"

record Stats =
  reads :: nat
  hits :: nat
  writes :: nat
  dels :: nat

type_synonym DiffMap = "(cacheKeyHex, AccountCacheElement option) OrderedMap"

record AccountCache =
  checkpoints :: int
  diffCache :: "DiffMap list"
  cache :: backend
  stats :: Stats

text \<open>
  A method either returns or throws; a throw carries the object as the method left it,
  since the assignments made before the throw stay.
\<close>

type_synonym 'a result = "(error \<times> AccountCache) + 'a"

text \<open>\<^verbatim>\<open>xs[i]\<close> on a JavaScript array: \<^verbatim>\<open>undefined\<close> outside \<open>0 \<dots> length - 1\<close>.\<close>

definition at_index :: "'a list \<Rightarrow> int \<Rightarrow> 'a option" where
  "at_index xs i = (if 0 \<le> i \<and> i < int (length xs) then Some (xs ! nat i) else None)"

text \<open>The three accesses to the backend, each with the branch on \<^verbatim>\<open>this._lruCache\<close>.\<close>

fun cache_get :: "cacheKeyHex \<Rightarrow> backend \<Rightarrow> AccountCacheElement option \<times> backend" where
  "cache_get k (LruCache c) = (case lru_get k c of (v, c') \<Rightarrow> (v, LruCache c'))"
| "cache_get k (OrderedMapCache m) = (getElementByKey k m, OrderedMapCache m)"

fun cache_set :: "cacheKeyHex \<Rightarrow> AccountCacheElement \<Rightarrow> backend \<Rightarrow> backend" where
  "cache_set k v (LruCache c) = LruCache (lru_set k v c)"
| "cache_set k v (OrderedMapCache m) = OrderedMapCache (setElement k v m)"

fun cache_delete :: "cacheKeyHex \<Rightarrow> backend \<Rightarrow> backend" where
  "cache_delete k (LruCache c) = LruCache (lru_delete k c)"
| "cache_delete k (OrderedMapCache m) = OrderedMapCache (eraseElementByKey k m)"

text \<open>What the backend holds, as a map: the abstraction used in the statements.\<close>

fun lookup :: "backend \<Rightarrow> cacheKeyHex \<Rightarrow> AccountCacheElement option" where
  "lookup (LruCache c) = map_of (entries c)"
| "lookup (OrderedMapCache m) = map_of m"

section \<open>The methods\<close>

definition saveCachePreState :: "cacheKeyHex \<Rightarrow> AccountCache \<Rightarrow> AccountCache result" where
  "saveCachePreState k s =
     (case at_index (diffCache s) (checkpoints s) of
        None \<Rightarrow> Inl (TypeError, s)
      | Some d \<Rightarrow>
          (case find_key k d of
             Some _ \<Rightarrow> Inr s
           | None \<Rightarrow>
               (case cache_get k (cache s) of
                  (oldElem, b) \<Rightarrow>
                    Inr (s\<lparr>cache := b,
                           diffCache := (diffCache s)[nat (checkpoints s) := setElement k oldElem d]\<rparr>))))"

text \<open>
  \<open>serialize\<close> stands for \<^verbatim>\<open>Account.serialize\<close> of the util package, which the cache
  only calls.
\<close>

definition put :: "('a \<Rightarrow> Buffer) \<Rightarrow> cacheKeyHex \<Rightarrow> 'a option \<Rightarrow> AccountCache \<Rightarrow> AccountCache result" where
  "put serialize address account s =
     (case saveCachePreState address s of
        Inl e \<Rightarrow> Inl e
      | Inr s1 \<Rightarrow>
          (let elem = AccountCacheElement (map_option serialize account)
           in Inr (s1\<lparr>cache := cache_set address elem (cache s1),
                      stats := (stats s1)\<lparr>writes := writes (stats s1) + 1\<rparr>\<rparr>)))"

definition get :: "cacheKeyHex \<Rightarrow> AccountCache \<Rightarrow> AccountCacheElement option \<times> AccountCache" where
  "get address s =
     (case cache_get address (cache s) of
        (elem, b) \<Rightarrow>
          (let st1 = (stats s)\<lparr>reads := reads (stats s) + 1\<rparr>;
               st2 = (if elem \<noteq> None then st1\<lparr>hits := hits st1 + 1\<rparr> else st1)
           in (elem, s\<lparr>cache := b, stats := st2\<rparr>)))"

definition del :: "cacheKeyHex \<Rightarrow> AccountCache \<Rightarrow> AccountCache result" where
  "del address s =
     (case saveCachePreState address s of
        Inl e \<Rightarrow> Inl e
      | Inr s1 \<Rightarrow>
          Inr (s1\<lparr>cache := cache_set address (AccountCacheElement None) (cache s1),
                  stats := (stats s1)\<lparr>dels := dels (stats s1) + 1\<rparr>\<rparr>))"

text \<open>The loop of \<^verbatim>\<open>flush\<close> over the keys of the diff map, \<open>items\<close> being the array built so far.\<close>

fun flush_loop ::
  "cacheKeyHex list \<Rightarrow> backend \<Rightarrow> (cacheKeyHex \<times> AccountCacheElement) list
     \<Rightarrow> (cacheKeyHex \<times> AccountCacheElement) list \<times> backend" where
  "flush_loop [] b items = (items, b)"
| "flush_loop (cacheKeyHex # rest) b items =
     (case cache_get cacheKeyHex b of
        (elem, b') \<Rightarrow>
          flush_loop rest b'
            (case elem of None \<Rightarrow> items | Some e \<Rightarrow> items @ [(cacheKeyHex, e)]))"

text \<open>
  The assignment \<^verbatim>\<open>this._diffCache[this._checkpoints] = new OrderedMap()\<close> is reached only
  when the index is inside the array, \<^verbatim>\<open>diffMap.begin()\<close> having thrown otherwise.
\<close>

definition flush :: "AccountCache \<Rightarrow> ((cacheKeyHex \<times> AccountCacheElement) list \<times> AccountCache) result" where
  "flush s =
     (case at_index (diffCache s) (checkpoints s) of
        None \<Rightarrow> Inl (TypeError, s)
      | Some diffMap \<Rightarrow>
          (case flush_loop (map fst diffMap) (cache s) [] of
             (items, b) \<Rightarrow>
               Inr (items, s\<lparr>cache := b,
                             diffCache := (diffCache s)[nat (checkpoints s) := []]\<rparr>)))"

fun revert_loop :: "DiffMap \<Rightarrow> backend \<Rightarrow> backend" where
  "revert_loop [] b = b"
| "revert_loop ((addressHex, elem) # rest) b =
     revert_loop rest
       (case elem of
          None \<Rightarrow> cache_delete addressHex b
        | Some e \<Rightarrow> cache_set addressHex e b)"

text \<open>\<^verbatim>\<open>pop()\<close> on an empty array returns \<^verbatim>\<open>undefined\<close>, and \<^verbatim>\<open>diffMap.begin()\<close> throws.\<close>

definition revert :: "AccountCache \<Rightarrow> AccountCache result" where
  "revert s =
     (let s1 = s\<lparr>checkpoints := checkpoints s - 1\<rparr>
      in if diffCache s1 = [] then Inl (TypeError, s1)
         else
           (let diffMap = last (diffCache s1);
                s2 = s1\<lparr>diffCache := butlast (diffCache s1)\<rparr>
            in Inr (s2\<lparr>cache := revert_loop diffMap (cache s2)\<rparr>)))"

text \<open>
  The loop of \<^verbatim>\<open>commit\<close>. \<^verbatim>\<open>oldElem === undefined\<close> holds when the parent layer has no
  entry for the key and also when its entry holds \<^verbatim>\<open>undefined\<close>.
\<close>

fun commit_loop :: "DiffMap \<Rightarrow> AccountCache \<Rightarrow> AccountCache result" where
  "commit_loop [] s = Inr s"
| "commit_loop ((addressHex, element) # rest) s =
     (case at_index (diffCache s) (checkpoints s) of
        None \<Rightarrow> Inl (TypeError, s)
      | Some parent \<Rightarrow>
          (case getElementByKey addressHex parent of
             Some (Some oldElem) \<Rightarrow> commit_loop rest s
           | _ \<Rightarrow>
               commit_loop rest
                 (s\<lparr>diffCache :=
                      (diffCache s)[nat (checkpoints s) := setElement addressHex element parent]\<rparr>)))"

definition commit :: "AccountCache \<Rightarrow> AccountCache result" where
  "commit s =
     (let s1 = s\<lparr>checkpoints := checkpoints s - 1\<rparr>
      in if diffCache s1 = [] then Inl (TypeError, s1)
         else commit_loop (last (diffCache s1)) (s1\<lparr>diffCache := butlast (diffCache s1)\<rparr>))"

subsection \<open>The base class\<close>

text \<open>
  Modelled from the spec: the constructor of the base class \<^verbatim>\<open>Cache\<close> is not part of
  the sources. The engine is created with a fixed backend kind and capacity, at depth 0,
  with an empty backend, the counters at zero and the single base layer that the
  mutations at depth 0 and \<^verbatim>\<open>flush\<close> address as \<^verbatim>\<open>_diffCache[0]\<close>.
\<close>

datatype CacheType = LRU nat | ORDERED_MAP

definition new_AccountCache :: "CacheType \<Rightarrow> AccountCache" where
  "new_AccountCache t =
     \<lparr>checkpoints = 0,
      diffCache = [[]],
      cache = (case t of LRU n \<Rightarrow> LruCache (LRUCache n []) | ORDERED_MAP \<Rightarrow> OrderedMapCache []),
      stats = \<lparr>reads = 0, hits = 0, writes = 0, dels = 0\<rparr>\<rparr>"

text \<open>
  Modelled from the spec: \<^verbatim>\<open>checkpoint()\<close> of the base class \<^verbatim>\<open>Cache\<close> is not part of
  the sources. It pushes a new empty diff layer onto the stack and the depth grows by one;
  it always succeeds.
\<close>

definition checkpoint :: "AccountCache \<Rightarrow> AccountCache" where
  "checkpoint s = s\<lparr>checkpoints := checkpoints s + 1, diffCache := diffCache s @ [[]]\<rparr>"

subsection \<open>Sequences of calls\<close>

datatype 'a mutation = Put cacheKeyHex "'a option" | Del cacheKeyHex

fun mutation_key :: "'a mutation \<Rightarrow> cacheKeyHex" where
  "mutation_key (Put k a) = k"
| "mutation_key (Del k) = k"

fun mutate :: "('a \<Rightarrow> Buffer) \<Rightarrow> 'a mutation \<Rightarrow> AccountCache \<Rightarrow> AccountCache result" where
  "mutate serialize (Put k a) s = put serialize k a s"
| "mutate serialize (Del k) s = del k s"

text \<open>A sequence of put and del calls, stopping at the first throw.\<close>

fun mutate_all :: "('a \<Rightarrow> Buffer) \<Rightarrow> 'a mutation list \<Rightarrow> AccountCache \<Rightarrow> AccountCache result" where
  "mutate_all serialize [] s = Inr s"
| "mutate_all serialize (m # ms) s =
     (case mutate serialize m s of
        Inl e \<Rightarrow> Inl e
      | Inr s' \<Rightarrow> mutate_all serialize ms s')"

text \<open>
  The shape the constructor sets up and every call at depth \<open>\<ge> 0\<close> keeps: one diff layer
  per open checkpoint above the base layer, every layer with ascending keys.
\<close>

definition well_formed :: "AccountCache \<Rightarrow> bool" where
  "well_formed s \<longleftrightarrow>
     0 \<le> checkpoints s \<and> int (length (diffCache s)) = checkpoints s + 1
     \<and> list_all ordered (diffCache s)"

subsection \<open>Conditions on the backend\<close>

text \<open>The bounded store holds at least one entry.\<close>

definition capacity_positive :: "backend \<Rightarrow> bool" where
  "capacity_positive b = (case b of LruCache c \<Rightarrow> 0 < max_entries c | OrderedMapCache m \<Rightarrow> True)"

text \<open>
  No eviction can happen while only the keys \<open>ks\<close> are written: the keys held and the keys
  \<open>ks\<close> together are within the capacity. The unbounded map never evicts.
\<close>

definition fits :: "cacheKeyHex list \<Rightarrow> backend \<Rightarrow> bool" where
  "fits ks b =
     (case b of
        LruCache c \<Rightarrow>
          distinct (map fst (entries c))
          \<and> card (fst ` set (entries c) \<union> set ks) \<le> max_entries c
      | OrderedMapCache m \<Rightarrow> True)"

text \<open>The element that a mutation writes into the backend.\<close>

fun mutation_elem :: "('a \<Rightarrow> Buffer) \<Rightarrow> 'a mutation \<Rightarrow> AccountCacheElement" where
  "mutation_elem serialize (Put k a) = AccountCacheElement (map_option serialize a)"
| "mutation_elem serialize (Del k) = AccountCacheElement None"

text \<open>
  The pairs that \<^verbatim>\<open>flush\<close> collects from the keys \<open>ks\<close>: each key the backend holds, with
  the value held, in the order of \<open>ks\<close>.
\<close>

definition present_items :: "backend \<Rightarrow> cacheKeyHex list \<Rightarrow> (cacheKeyHex \<times> AccountCacheElement) list" where
  "present_items b ks = List.map_filter (\<lambda>k. map_option (Pair k) (lookup b k)) ks"

subsection \<open>Arbitrary calls\<close>

text \<open>The object after a call, whether the call returned or threw.\<close>

fun state_after :: "AccountCache result \<Rightarrow> AccountCache" where
  "state_after (Inl (e, s)) = s"
| "state_after (Inr s) = s"

datatype 'a call = Mutate "'a mutation" | Get cacheKeyHex | Checkpoint | Commit | Revert | Flush

fun perform :: "('a \<Rightarrow> Buffer) \<Rightarrow> 'a call \<Rightarrow> AccountCache \<Rightarrow> AccountCache" where
  "perform serialize (Mutate m) s = state_after (mutate serialize m s)"
| "perform serialize (Get k) s = snd (get k s)"
| "perform serialize Checkpoint s = checkpoint s"
| "perform serialize Commit s = state_after (commit s)"
| "perform serialize Revert s = state_after (revert s)"
| "perform serialize Flush s = (case flush s of Inl (e, s') \<Rightarrow> s' | Inr (items, s') \<Rightarrow> s')"

fun perform_all :: "('a \<Rightarrow> Buffer) \<Rightarrow> 'a call list \<Rightarrow> AccountCache \<Rightarrow> AccountCache" where
  "perform_all serialize [] s = s"
| "perform_all serialize (c # cs) s = perform_all serialize cs (perform serialize c s)"

text \<open>A call that writes the key \<open>k\<close>: a put or a del of \<open>k\<close>.\<close>

fun writes_key :: "cacheKeyHex \<Rightarrow> 'a call \<Rightarrow> bool" where
  "writes_key k (Mutate m) = (mutation_key m = k)"
| "writes_key k c = False"

text \<open>A key never written: neither the backend nor any diff layer has an entry for it.\<close>

definition unwritten :: "cacheKeyHex \<Rightarrow> AccountCache \<Rightarrow> bool" where
  "unwritten k s \<longleftrightarrow> lookup (cache s) k = None \<and> list_all (\<lambda>d. find_key k d = None) (diffCache s)"

text \<open>A key that no diff layer records.\<close>

definition unrecorded :: "cacheKeyHex \<Rightarrow> AccountCache \<Rightarrow> bool" where
  "unrecorded k s = list_all (\<lambda>d. find_key k d = None) (diffCache s)"

section \<open>Facts about the containers\<close>

lemma map_of_setElement: "map_of (setElement k v m) = (map_of m)(k \<mapsto> v)"
  by (induction m) (auto simp: fun_eq_iff)

lemma keys_setElement: "fst ` set (setElement k v m) = insert k (fst ` set m)"
  by (induction m) auto

lemma set_setElement_fresh:
  "k \<notin> fst ` set m \<Longrightarrow> set (setElement k v m) = insert (k, v) (set m)"
  by (induction m) auto

lemma ordered_setElement: "ordered m \<Longrightarrow> ordered (setElement k v m)"
  unfolding ordered_def
proof (induction m)
  case Nil
  then show ?case by simp
next
  case (Cons e m)
  then show ?case
    using keys_setElement [of k v m] by (auto simp: image_iff) 
qed

lemma ordered_distinct: "ordered m \<Longrightarrow> distinct (map fst m)"
  unfolding ordered_def by (simp add: strict_sorted_iff)

lemma map_of_filter_key: "map_of (filter (\<lambda>e. fst e \<noteq> k) m) = (map_of m)(k := None)"
  by (induction m) (auto simp: fun_eq_iff)

lemma map_of_eraseElementByKey: "map_of (eraseElementByKey k m) = (map_of m)(k := None)"
  by (simp add: eraseElementByKey_def map_of_filter_key)

lemma find_key_None_iff: "find_key k m = None \<longleftrightarrow> k \<notin> fst ` set m"
  by (simp add: find_key_def map_of_eq_None_iff)

lemma cache_get_fst: "fst (cache_get k b) = lookup b k"
  by (cases b) (auto simp: lru_get_def getElementByKey_def split: option.splits)

lemma cache_get_lookup: "lookup (snd (cache_get k b)) = lookup b"
  by (cases b) (auto simp: lru_get_def map_of_filter_key fun_eq_iff split: option.splits)

lemma cache_delete_lookup: "lookup (cache_delete k b) = (lookup b)(k := None)"
  by (cases b) (auto simp: lru_delete_def map_of_eraseElementByKey map_of_filter_key)

lemma cache_set_lookup_same:
  "capacity_positive b \<Longrightarrow> lookup (cache_set k v b) k = Some v"
  by (cases b) (auto simp: capacity_positive_def lru_set_def map_of_setElement take_Cons')

lemma map_of_take: "map_of (take n xs) k = None \<or> map_of (take n xs) k = map_of xs k"
proof (induction xs arbitrary: n)
  case Nil
  then show ?case by simp
next
  case (Cons x xs)
  then show ?case by (cases n) auto
qed

lemma cache_set_lookup_other:
  "k' \<noteq> k \<Longrightarrow> lookup (cache_set k v b) k' = None \<or> lookup (cache_set k v b) k' = lookup b k'"
proof (cases b)
  case (LruCache c)
  assume ne: "k' \<noteq> k"
  show ?thesis
    using map_of_take [of "max_entries c" "(k, v) # filter (\<lambda>e. fst e \<noteq> k) (entries c)" k'] ne
    by (simp add: LruCache lru_set_def map_of_filter_key)
next
  case (OrderedMapCache m)
  assume "k' \<noteq> k"
  then show ?thesis by (simp add: OrderedMapCache map_of_setElement)
qed

lemma capacity_positive_set [simp]: "capacity_positive (cache_set k v b) = capacity_positive b"
  by (cases b) (auto simp: capacity_positive_def lru_set_def)

lemma capacity_positive_delete [simp]: "capacity_positive (cache_delete k b) = capacity_positive b"
  by (cases b) (auto simp: capacity_positive_def lru_delete_def)

lemma capacity_positive_get [simp]: "capacity_positive (snd (cache_get k b)) = capacity_positive b"
  by (cases b) (auto simp: capacity_positive_def lru_get_def split: option.splits)

lemma keys_filter_key: "fst ` {e \<in> set es. fst e \<noteq> k} = fst ` set es - {k}"
  by auto

lemma distinct_filter_key: "distinct (map fst es) \<Longrightarrow> distinct (map fst (filter (\<lambda>e. fst e \<noteq> k) es))"
  by (simp add: distinct_map_filter)

lemma length_filter_key:
  assumes "distinct (map fst es)"
  shows "length (filter (\<lambda>e. fst e \<noteq> k) es) = card (fst ` set es - {k})"
proof -
  have "distinct (map fst (filter (\<lambda>e. fst e \<noteq> k) es))"
    using assms by (rule distinct_filter_key)
  then have "card (set (map fst (filter (\<lambda>e. fst e \<noteq> k) es))) = length (map fst (filter (\<lambda>e. fst e \<noteq> k) es))"
    by (rule distinct_card)
  then show ?thesis by (simp add: keys_filter_key)
qed

lemma lru_set_no_eviction:
  assumes d: "distinct (map fst es)" and c: "card (fst ` set es \<union> set ks) \<le> n" and k: "k \<in> set ks"
  shows "take n ((k, v) # filter (\<lambda>e. fst e \<noteq> k) es) = (k, v) # filter (\<lambda>e. fst e \<noteq> k) es"
proof -
  have "insert k (fst ` set es - {k}) \<subseteq> fst ` set es \<union> set ks" using k by auto
  then have "card (insert k (fst ` set es - {k})) \<le> card (fst ` set es \<union> set ks)"
    by (intro card_mono) auto
  moreover have "card (insert k (fst ` set es - {k})) = Suc (card (fst ` set es - {k}))"
    by (subst card_insert_disjoint) auto
  ultimately have "Suc (length (filter (\<lambda>e. fst e \<noteq> k) es)) \<le> n"
    using c length_filter_key [OF d, of k] by simp
  then show ?thesis by simp
qed

lemma fits_set:
  assumes "fits ks b" and "k \<in> set ks"
  shows "lookup (cache_set k v b) = (lookup b)(k \<mapsto> v)" and "fits ks (cache_set k v b)"
proof -
  show "lookup (cache_set k v b) = (lookup b)(k \<mapsto> v)"
  proof (cases b)
    case (LruCache c)
    then show ?thesis
      using assms lru_set_no_eviction [of "entries c" ks "max_entries c" k v]
      by (auto simp: fits_def lru_set_def map_of_filter_key fun_eq_iff)
  next
    case (OrderedMapCache m)
    then show ?thesis by (simp add: map_of_setElement)
  qed
  show "fits ks (cache_set k v b)"
  proof (cases b)
    case (LruCache c)
    have "insert k (fst ` set (entries c) - {k}) \<union> set ks = fst ` set (entries c) \<union> set ks"
      using assms(2) by auto
    then show ?thesis
      using assms lru_set_no_eviction [of "entries c" ks "max_entries c" k v]
      by (simp add: LruCache fits_def lru_set_def keys_filter_key distinct_filter_key)
  next
    case (OrderedMapCache m)
    then show ?thesis by (simp add: fits_def)
  qed
qed

lemma fits_delete: "fits ks b \<Longrightarrow> fits ks (cache_delete k b)"
proof (cases b)
  case (LruCache c)
  assume f: "fits ks b"
  have "card ((fst ` set (entries c) - {k}) \<union> set ks) \<le> card (fst ` set (entries c) \<union> set ks)"
    by (intro card_mono) auto
  then show ?thesis
    using f by (simp add: LruCache fits_def lru_delete_def keys_filter_key distinct_filter_key)
next
  case (OrderedMapCache m)
  then show ?thesis by (simp add: fits_def)
qed

lemma fits_get: "fits ks b \<Longrightarrow> fits ks (snd (cache_get k b))"
proof (cases b)
  case (LruCache c)
  assume f: "fits ks b"
  show ?thesis
  proof (cases "map_of (entries c) k")
    case None
    then show ?thesis using f by (simp add: LruCache lru_get_def)
  next
    case (Some v)
    then have "k \<in> fst ` set (entries c)"
      using map_of_eq_None_iff [of "entries c" k] by auto
    then have "insert k (fst ` set (entries c) - {k}) = fst ` set (entries c)" by auto
    then show ?thesis
      using f Some by (simp add: LruCache fits_def lru_get_def keys_filter_key distinct_filter_key)
  qed
next
  case (OrderedMapCache m)
  then show ?thesis by (simp add: fits_def)
qed

lemma fits_capacity_positive: "fits ks b \<Longrightarrow> k \<in> set ks \<Longrightarrow> capacity_positive b"
proof (cases b)
  case (LruCache c)
  assume f: "fits ks b" and k: "k \<in> set ks"
  have "card {k} \<le> card (fst ` set (entries c) \<union> set ks)"
    using k by (intro card_mono) auto
  then show ?thesis using f by (simp add: LruCache fits_def capacity_positive_def)
next
  case (OrderedMapCache m)
  then show ?thesis by (simp add: capacity_positive_def)
qed

lemma present_items_Nil [simp]: "present_items b [] = []"
  by (simp add: present_items_def map_filter_simps)

lemma present_items_Cons:
  "present_items b (k # ks) =
     (case lookup b k of None \<Rightarrow> present_items b ks | Some v \<Rightarrow> (k, v) # present_items b ks)"
  by (simp add: present_items_def map_filter_simps split: option.splits)

lemma keys_present_items: "fst ` set (present_items b ks) = {k \<in> set ks. lookup b k \<noteq> None}"
  by (induction ks) (auto simp: present_items_Cons split: option.splits)

lemma set_present_items: "set (present_items b ks) = {(k, v). k \<in> set ks \<and> lookup b k = Some v}"
  by (induction ks) (auto simp: present_items_Cons split: option.splits)


lemma list_all_update: "list_all P xs \<Longrightarrow> P y \<Longrightarrow> list_all P (xs[i := y])"
  using set_update_subset_insert [of xs i y] by (auto simp: list_all_iff)

section \<open>Effect of the methods\<close>

subsection \<open>put and del\<close>

lemma at_index_Some_iff:
  "at_index xs i = Some x \<longleftrightarrow> 0 \<le> i \<and> nat i < length xs \<and> xs ! nat i = x"
  by (auto simp: at_index_def)

lemma at_index_top: "at_index (xs @ [d]) (int (length xs)) = Some d"
  by (simp add: at_index_def)

lemma at_index_update:
  "at_index xs i = Some x \<Longrightarrow> at_index (xs[nat i := y]) i = Some y"
  by (auto simp: at_index_def split: if_splits)

lemma well_formed_top:
  "well_formed s \<Longrightarrow> at_index (diffCache s) (checkpoints s) = Some (last (diffCache s))"
  by (cases "diffCache s" rule: rev_cases) (auto simp: well_formed_def at_index_def nth_append)

lemma saveCachePreState_eq:
  assumes "at_index (diffCache s) (checkpoints s) = Some d"
  shows "saveCachePreState k s =
           Inr (if find_key k d \<noteq> None then s
                else s\<lparr>cache := snd (cache_get k (cache s)),
                       diffCache := (diffCache s)[nat (checkpoints s) := setElement k (lookup (cache s) k) d]\<rparr>)"
  using assms cache_get_fst [of k "cache s"]
  by (auto simp: saveCachePreState_def split: option.splits prod.splits)

lemma mutate_effect:
  assumes "at_index (diffCache s) (checkpoints s) = Some d"
  shows "\<exists>s'. mutate serialize m s = Inr s'
           \<and> checkpoints s' = checkpoints s
           \<and> diffCache s' =
               (if find_key (mutation_key m) d \<noteq> None then diffCache s
                else (diffCache s)[nat (checkpoints s) :=
                       setElement (mutation_key m) (lookup (cache s) (mutation_key m)) d])
           \<and> cache s' =
               cache_set (mutation_key m) (mutation_elem serialize m)
                 (if find_key (mutation_key m) d \<noteq> None then cache s
                  else snd (cache_get (mutation_key m) (cache s)))"
  using saveCachePreState_eq [OF assms]
  by (cases m) (auto simp: put_def del_def)

lemma mutate_stats:
  "mutate serialize m s = Inr s' \<Longrightarrow>
     reads (stats s') = reads (stats s) \<and> hits (stats s') = hits (stats s)"
  by (cases m)
    (auto simp: put_def del_def saveCachePreState_def
          split: sum.splits option.splits prod.splits)

lemma mutate_first:
  assumes "well_formed s"
  shows "\<exists>s1 p. mutate serialize m s = Inr s1 \<and> well_formed s1
           \<and> find_key (mutation_key m) (last (diffCache s1)) = Some p
           \<and> (find_key (mutation_key m) (last (diffCache s)) = None \<longrightarrow>
                p = lookup (cache s) (mutation_key m))
           \<and> (find_key (mutation_key m) (last (diffCache s)) \<noteq> None \<longrightarrow>
                find_key (mutation_key m) (last (diffCache s)) = Some p \<and> diffCache s1 = diffCache s)"
proof -
  let ?k = "mutation_key m"
  let ?d = "last (diffCache s)"
  let ?base = "butlast (diffCache s)"
  have ne: "diffCache s \<noteq> []" using assms by (auto simp: well_formed_def)
  then have shape: "diffCache s = ?base @ [?d]" by simp
  have "int (length (diffCache s)) = checkpoints s + 1"
    using assms by (simp add: well_formed_def)
  then have cp: "nat (checkpoints s) = length ?base"
    unfolding length_butlast by linarith
  have ord: "list_all ordered ?base" "ordered ?d"
    using assms ne by (auto simp: well_formed_def list_all_iff dest: in_set_butlastD)
  from mutate_effect [OF well_formed_top [OF assms], of serialize m]
  obtain s1 where s1: "mutate serialize m s = Inr s1" "checkpoints s1 = checkpoints s"
    "diffCache s1 =
       (if find_key ?k ?d \<noteq> None then diffCache s
        else (diffCache s)[nat (checkpoints s) := setElement ?k (lookup (cache s) ?k) ?d])"
    by blast
  show ?thesis
  proof (cases "find_key ?k ?d")
    case None
    let ?d' = "setElement ?k (lookup (cache s) ?k) ?d"
    have "(?base @ [?d])[length ?base := ?d'] = ?base @ [?d']" by (rule list_update_length)
    then have dc: "diffCache s1 = ?base @ [?d']" using s1(3) None cp shape by simp
    have "well_formed s1"
      using assms s1(2) dc ord ordered_setElement [of ?d ?k "lookup (cache s) ?k"]
      by (simp add: well_formed_def)
    moreover have "find_key ?k (last (diffCache s1)) = Some (lookup (cache s) ?k)"
      using dc by (simp add: find_key_def map_of_setElement)
    ultimately show ?thesis using s1(1) None by auto
  next
    case (Some p)
    then have "diffCache s1 = diffCache s" using s1(3) by simp
    moreover from this have "well_formed s1" using assms s1(2) by (simp add: well_formed_def)
    ultimately show ?thesis using s1(1) Some by auto
  qed
qed




lemma mutate_written:
  assumes "at_index (diffCache s) (checkpoints s) = Some d"
  shows "\<exists>s'. mutate serialize m s = Inr s'
           \<and> (capacity_positive (cache s) \<longrightarrow>
                lookup (cache s') (mutation_key m) = Some (mutation_elem serialize m))
           \<and> (\<forall>k. k \<noteq> mutation_key m \<longrightarrow>
                lookup (cache s') k = lookup (cache s) k \<or> lookup (cache s') k = None)
           \<and> (fits [mutation_key m] (cache s) \<longrightarrow>
                lookup (cache s') = (lookup (cache s))(mutation_key m \<mapsto> mutation_elem serialize m))"
proof -
  let ?k = "mutation_key m"
  let ?b = "if find_key ?k d \<noteq> None then cache s else snd (cache_get ?k (cache s))"
  from mutate_effect [OF assms, of serialize m]
  obtain s' where s': "mutate serialize m s = Inr s'"
    "cache s' = cache_set ?k (mutation_elem serialize m) ?b"
    by blast
  have lb: "lookup ?b = lookup (cache s)" by (simp add: cache_get_lookup)
  have cb: "capacity_positive ?b = capacity_positive (cache s)" by simp
  have fb: "fits [?k] (cache s) \<longrightarrow> fits [?k] ?b" by (simp add: fits_get)
  have 1: "capacity_positive (cache s) \<longrightarrow> lookup (cache s') ?k = Some (mutation_elem serialize m)"
    using s'(2) cb cache_set_lookup_same [of ?b ?k] by simp
  have "lookup (cache s') k = lookup (cache s) k \<or> lookup (cache s') k = None"
    if "k \<noteq> ?k" for k
    using cache_set_lookup_other [OF that, of "mutation_elem serialize m" ?b]
    unfolding s'(2) lb by auto
  then have 2: "\<forall>k. k \<noteq> ?k \<longrightarrow> lookup (cache s') k = lookup (cache s) k \<or> lookup (cache s') k = None"
    by blast
  have 3: "fits [?k] (cache s) \<longrightarrow>
             lookup (cache s') = (lookup (cache s))(?k \<mapsto> mutation_elem serialize m)"
    using s'(2) lb fb fits_set(1) [of "[?k]" ?b ?k] by auto
  show ?thesis using s'(1) 1 2 3 by blast
qed

lemma mutate_all_top_keys:
  assumes "at_index (diffCache s) (checkpoints s) = Some d"
  shows "\<exists>s' d'. mutate_all serialize ms s = Inr s'
           \<and> at_index (diffCache s') (checkpoints s') = Some d'
           \<and> fst ` set d' = fst ` set d \<union> mutation_key ` set ms
           \<and> capacity_positive (cache s') = capacity_positive (cache s)
           \<and> (ms \<noteq> [] \<and> capacity_positive (cache s) \<longrightarrow>
                lookup (cache s') (mutation_key (last ms)) = Some (mutation_elem serialize (last ms)))"
  using assms
proof (induction ms arbitrary: s d)
  case Nil
  then show ?case by simp
next
  case (Cons m ms)
  let ?k = "mutation_key m"
  let ?d = "if find_key ?k d \<noteq> None then d else setElement ?k (lookup (cache s) ?k) d"
  from mutate_effect [OF Cons.prems, of serialize m]
  obtain s1 where s1: "mutate serialize m s = Inr s1" "checkpoints s1 = checkpoints s"
    "diffCache s1 =
       (if find_key ?k d \<noteq> None then diffCache s
        else (diffCache s)[nat (checkpoints s) := setElement ?k (lookup (cache s) ?k) d])"
    "cache s1 =
       cache_set ?k (mutation_elem serialize m)
         (if find_key ?k d \<noteq> None then cache s else snd (cache_get ?k (cache s)))"
    by blast
  have top1: "at_index (diffCache s1) (checkpoints s1) = Some ?d"
    using s1(2,3) Cons.prems at_index_update [OF Cons.prems] by auto
  have keys1: "fst ` set ?d = insert ?k (fst ` set d)"
    using find_key_None_iff [of ?k d] by (auto simp: keys_setElement)
  have cap1: "capacity_positive (cache s1) = capacity_positive (cache s)"
    using s1(4) by simp
  have look1: "capacity_positive (cache s) \<longrightarrow> lookup (cache s1) ?k = Some (mutation_elem serialize m)"
    using s1(4) by (simp add: cache_set_lookup_same)
  from Cons.IH [OF top1]
  obtain s' d' where s': "mutate_all serialize ms s1 = Inr s'"
    "at_index (diffCache s') (checkpoints s') = Some d'"
    "fst ` set d' = fst ` set ?d \<union> mutation_key ` set ms"
    "capacity_positive (cache s') = capacity_positive (cache s1)"
    "ms \<noteq> [] \<and> capacity_positive (cache s1) \<longrightarrow>
       lookup (cache s') (mutation_key (last ms)) = Some (mutation_elem serialize (last ms))"
    by blast
  show ?case
  proof (cases "ms = []")
    case True
    then show ?thesis using s1(1) s' keys1 cap1 look1 by (intro exI [of _ s'] exI [of _ d']) auto
  next
    case False
    then show ?thesis using s1(1) s' keys1 cap1 by (intro exI [of _ s'] exI [of _ d']) auto
  qed
qed

lemma mutate_tracked:
  assumes cp: "checkpoints s1 = int (length base)" and dc: "diffCache s1 = base @ [d]"
    and fit: "fits ks (cache s1)" and key: "mutation_key m \<in> set ks"
    and sub: "fst ` set d \<subseteq> set ks"
    and pre: "\<forall>e\<in>set d. snd e = f (fst e)"
    and rest: "\<forall>k. k \<notin> fst ` set d \<longrightarrow> lookup (cache s1) k = f k"
  shows "\<exists>s2 d'. mutate serialize m s1 = Inr s2 \<and> checkpoints s2 = checkpoints s1
           \<and> diffCache s2 = base @ [d'] \<and> fits ks (cache s2) \<and> fst ` set d' \<subseteq> set ks
           \<and> (\<forall>e\<in>set d'. snd e = f (fst e))
           \<and> (\<forall>k. k \<notin> fst ` set d' \<longrightarrow> lookup (cache s2) k = f k)"
proof -
  let ?k = "mutation_key m"
  let ?v = "mutation_elem serialize m"
  have top: "at_index (diffCache s1) (checkpoints s1) = Some d"
    using cp dc by (simp add: at_index_top)
  from mutate_effect [OF top, of serialize m]
  obtain s2 where s2: "mutate serialize m s1 = Inr s2" "checkpoints s2 = checkpoints s1"
    "diffCache s2 =
       (if find_key ?k d \<noteq> None then diffCache s1
        else (diffCache s1)[nat (checkpoints s1) := setElement ?k (lookup (cache s1) ?k) d])"
    "cache s2 =
       cache_set ?k ?v (if find_key ?k d \<noteq> None then cache s1 else snd (cache_get ?k (cache s1)))"
    by blast
  show ?thesis
  proof (cases "find_key ?k d = None")
    case False
    then have kd: "?k \<in> fst ` set d" by (simp add: find_key_None_iff)
    have "lookup (cache s2) = (lookup (cache s1))(?k \<mapsto> ?v)" and "fits ks (cache s2)"
      using False s2(4) fits_set [OF fit key] by auto
    then show ?thesis
      using False s2 dc sub pre rest kd by (intro exI [of _ s2] exI [of _ d]) auto
  next
    case True
    then have kd: "?k \<notin> fst ` set d" by (simp add: find_key_None_iff)
    let ?d = "setElement ?k (lookup (cache s1) ?k) d"
    have f1: "fits ks (snd (cache_get ?k (cache s1)))" using fit by (rule fits_get)
    have lk: "lookup (cache s2) = (lookup (cache s1))(?k \<mapsto> ?v)" and f2: "fits ks (cache s2)"
      using True s2(4) fits_set [OF f1 key] by (auto simp: cache_get_lookup)
    have d2: "diffCache s2 = base @ [?d]"
      using True s2(3) cp dc by simp
    have set_d: "set ?d = insert (?k, lookup (cache s1) ?k) (set d)"
      using kd by (rule set_setElement_fresh)
    have "lookup (cache s1) ?k = f ?k" using rest kd by blast
    then have pre': "\<forall>e\<in>set ?d. snd e = f (fst e)" using pre set_d by auto
    have sub': "fst ` set ?d \<subseteq> set ks" using sub key set_d by auto
    have rest': "\<forall>k. k \<notin> fst ` set ?d \<longrightarrow> lookup (cache s2) k = f k"
      using rest lk set_d by auto
    show ?thesis
      using s2(1,2) d2 f2 sub' pre' rest' by blast
  qed
qed

lemma mutate_all_tracked:
  assumes "checkpoints s1 = int (length base)" and "diffCache s1 = base @ [d]"
    and "fits ks (cache s1)" and "mutation_key ` set ms \<subseteq> set ks"
    and "fst ` set d \<subseteq> set ks"
    and "\<forall>e\<in>set d. snd e = f (fst e)"
    and "\<forall>k. k \<notin> fst ` set d \<longrightarrow> lookup (cache s1) k = f k"
  shows "\<exists>s2 d'. mutate_all serialize ms s1 = Inr s2 \<and> checkpoints s2 = checkpoints s1
           \<and> diffCache s2 = base @ [d'] \<and> fits ks (cache s2) \<and> fst ` set d' \<subseteq> set ks
           \<and> (\<forall>e\<in>set d'. snd e = f (fst e))
           \<and> (\<forall>k. k \<notin> fst ` set d' \<longrightarrow> lookup (cache s2) k = f k)"
  using assms
proof (induction ms arbitrary: s1 d)
  case Nil
  then show ?case by auto
next
  case (Cons m ms)
  have key: "mutation_key m \<in> set ks" using Cons.prems(4) by simp
  from mutate_tracked [OF Cons.prems(1,2,3) key Cons.prems(5,6,7), of serialize]
  obtain s2 d' where s2: "mutate serialize m s1 = Inr s2" "checkpoints s2 = checkpoints s1"
    "diffCache s2 = base @ [d']" "fits ks (cache s2)" "fst ` set d' \<subseteq> set ks"
    "\<forall>e\<in>set d'. snd e = f (fst e)" "\<forall>k. k \<notin> fst ` set d' \<longrightarrow> lookup (cache s2) k = f k"
    by blast
  have cp2: "checkpoints s2 = int (length base)" using s2(2) Cons.prems(1) by simp
  have keys: "mutation_key ` set ms \<subseteq> set ks" using Cons.prems(4) by simp
  from Cons.IH [OF cp2 s2(3,4) keys s2(5,6,7)] s2(1,2)
  show ?case by auto
qed

subsection \<open>get and flush\<close>

lemma get_fst: "fst (get k s) = lookup (cache s) k"
  using cache_get_fst [of k "cache s"]
  by (cases "cache_get k (cache s)") (simp add: get_def Let_def)

lemma get_hit:
  "lookup (cache s) k \<noteq> None \<Longrightarrow> hits (stats (snd (get k s))) = hits (stats s) + 1"
  using cache_get_fst [of k "cache s"]
  by (cases "cache_get k (cache s)") (auto simp: get_def Let_def)

lemma get_lookup: "lookup (cache (snd (get k s))) = lookup (cache s)"
  using cache_get_lookup [of k "cache s"]
  by (cases "cache_get k (cache s)") (simp add: get_def Let_def)

lemma flush_loop_eq:
  "\<exists>b'. flush_loop ks b items = (items @ present_items b ks, b') \<and> lookup b' = lookup b
        \<and> capacity_positive b' = capacity_positive b"
proof (induction ks arbitrary: b items)
  case Nil
  then show ?case by simp
next
  case (Cons k ks)
  obtain v b1 where g: "cache_get k b = (v, b1)" by (cases "cache_get k b")
  then have v: "v = lookup b k" and b1: "lookup b1 = lookup b"
    and c1: "capacity_positive b1 = capacity_positive b"
    using cache_get_fst [of k b] cache_get_lookup [of k b] capacity_positive_get [of k b] by auto
  from Cons.IH [of b1 "case v of None \<Rightarrow> items | Some e \<Rightarrow> items @ [(k, e)]"]
  obtain b' where b': "flush_loop ks b1 (case v of None \<Rightarrow> items | Some e \<Rightarrow> items @ [(k, e)])
      = ((case v of None \<Rightarrow> items | Some e \<Rightarrow> items @ [(k, e)]) @ present_items b1 ks, b')"
    "lookup b' = lookup b1" "capacity_positive b' = capacity_positive b1"
    by blast
  have "present_items b1 ks = present_items b ks" by (simp add: present_items_def b1)
  then show ?case
    using g v b1 c1 b' by (auto simp: present_items_Cons split: option.splits)
qed

lemma flush_eq:
  assumes "at_index (diffCache s) (checkpoints s) = Some d"
  shows "\<exists>b. flush s = Inr (present_items (cache s) (map fst d),
                           s\<lparr>cache := b, diffCache := (diffCache s)[nat (checkpoints s) := []]\<rparr>)
           \<and> lookup b = lookup (cache s) \<and> capacity_positive b = capacity_positive (cache s)"
proof -
  from flush_loop_eq [of "map fst d" "cache s" "[]"]
  obtain b where "flush_loop (map fst d) (cache s) [] = (present_items (cache s) (map fst d), b)"
    "lookup b = lookup (cache s)" "capacity_positive b = capacity_positive (cache s)"
    by auto
  then show ?thesis using assms by (auto simp: flush_def)
qed

subsection \<open>revert\<close>

lemma revert_eq:
  assumes "diffCache s = base @ [d]"
  shows "revert s = Inr (s\<lparr>checkpoints := checkpoints s - 1, diffCache := base,
                           cache := revert_loop d (cache s)\<rparr>)"
  using assms by (simp add: revert_def Let_def)

lemma revert_step_lookup:
  assumes "fits ks b" and "k \<in> set ks"
  shows "lookup (case p of None \<Rightarrow> cache_delete k b | Some e \<Rightarrow> cache_set k e b) = (lookup b)(k := p)"
    and "fits ks (case p of None \<Rightarrow> cache_delete k b | Some e \<Rightarrow> cache_set k e b)"
  using assms by (auto simp: cache_delete_lookup fits_set fits_delete split: option.splits)

lemma revert_loop_restores:
  assumes "fits ks b" and "fst ` set d \<subseteq> set ks" and "\<forall>e\<in>set d. snd e = f (fst e)"
  shows "lookup (revert_loop d b) = (\<lambda>k. if k \<in> fst ` set d then f k else lookup b k)
         \<and> fits ks (revert_loop d b)"
  using assms
proof (induction d arbitrary: b)
  case Nil
  then show ?case by simp
next
  case (Cons e d)
  obtain k p where e: "e = (k, p)" by (cases e)
  let ?b = "case p of None \<Rightarrow> cache_delete k b | Some v \<Rightarrow> cache_set k v b"
  have k: "k \<in> set ks" and p: "p = f k" using Cons.prems e by auto
  have b': "lookup ?b = (lookup b)(k := p)" "fits ks ?b"
    using revert_step_lookup [OF Cons.prems(1) k] by auto
  have "lookup (revert_loop d ?b) = (\<lambda>k. if k \<in> fst ` set d then f k else lookup ?b k)
         \<and> fits ks (revert_loop d ?b)"
    using Cons.IH [OF b'(2)] Cons.prems by auto
  then show ?case using b'(1) p by (auto simp: e fun_eq_iff)
qed

text \<open>
  Without the capacity condition a restored key may have been evicted again.
\<close>

lemma revert_step_other:
  "k' \<noteq> k \<Longrightarrow>
     lookup (case p of None \<Rightarrow> cache_delete k b | Some e \<Rightarrow> cache_set k e b) k' = None
     \<or> lookup (case p of None \<Rightarrow> cache_delete k b | Some e \<Rightarrow> cache_set k e b) k' = lookup b k'"
  using cache_set_lookup_other [of k' k _ b]
  by (auto simp: cache_delete_lookup split: option.splits)

lemma revert_loop_other:
  "k \<notin> fst ` set d \<Longrightarrow> lookup (revert_loop d b) k = None \<or> lookup (revert_loop d b) k = lookup b k"
proof (induction d arbitrary: b)
  case Nil
  then show ?case by simp
next
  case (Cons e d)
  obtain k' p where e: "e = (k', p)" by (cases e)
  let ?b = "case p of None \<Rightarrow> cache_delete k' b | Some v \<Rightarrow> cache_set k' v b"
  have ne: "k \<noteq> k'" and nd: "k \<notin> fst ` set d" using Cons.prems e by auto
  from Cons.IH [OF nd, of ?b] revert_step_other [OF ne, where p = p and b = b]
  show ?case by (auto simp: e)
qed

lemma revert_step_same:
  "lookup (case p of None \<Rightarrow> cache_delete k b | Some e \<Rightarrow> cache_set k e b) k = None
   \<or> lookup (case p of None \<Rightarrow> cache_delete k b | Some e \<Rightarrow> cache_set k e b) k = p"
proof (cases p)
  case None
  then show ?thesis by (simp add: cache_delete_lookup)
next
  case (Some e)
  show ?thesis
  proof (cases b)
    case (LruCache c)
    then show ?thesis
      using Some map_of_take [of "max_entries c" "(k, e) # filter (\<lambda>x. fst x \<noteq> k) (entries c)" k]
      by (simp add: lru_set_def)
  next
    case (OrderedMapCache m)
    then show ?thesis using Some by (simp add: map_of_setElement)
  qed
qed

lemma revert_loop_key:
  "distinct (map fst d) \<Longrightarrow> map_of d k = Some p \<Longrightarrow>
     lookup (revert_loop d b) k = None \<or> lookup (revert_loop d b) k = p"
proof (induction d arbitrary: b)
  case Nil
  then show ?case by simp
next
  case (Cons e d)
  obtain k' q where e: "e = (k', q)" by (cases e)
  let ?b = "case q of None \<Rightarrow> cache_delete k' b | Some v \<Rightarrow> cache_set k' v b"
  show ?case
  proof (cases "k = k'")
    case True
    then have "q = p" and "k \<notin> fst ` set d" using Cons.prems e by auto
    then show ?thesis
      using revert_loop_other [of k d ?b] revert_step_same [where p = p and k = k and b = b] True by (auto simp: e)
  next
    case False
    then show ?thesis using Cons e by auto
  qed
qed

lemma revert_loop_each:
  assumes "distinct (map fst d)"
  shows "lookup (revert_loop d b) k = None
         \<or> lookup (revert_loop d b) k = (case map_of d k of None \<Rightarrow> lookup b k | Some p \<Rightarrow> p)"
proof (cases "map_of d k")
  case None
  then have "k \<notin> fst ` set d" by (simp add: map_of_eq_None_iff)
  from revert_loop_other [OF this, of b] None show ?thesis by auto
next
  case (Some p)
  from revert_loop_key [OF assms Some, of b] Some show ?thesis by auto
qed

lemma revert_loop_exact:
  assumes "distinct (map fst d)" and "fits (map fst d) b"
  shows "lookup (revert_loop d b) = (\<lambda>k. case map_of d k of None \<Rightarrow> lookup b k | Some p \<Rightarrow> p)"
proof -
  have "\<forall>e\<in>set d. snd e = the (map_of d (fst e))" using assms(1) by auto
  from revert_loop_restores [OF assms(2) _ this]
  have r: "lookup (revert_loop d b) = (\<lambda>k. if k \<in> fst ` set d then the (map_of d k) else lookup b k)"
    by simp
  show ?thesis
  proof
    fix k
    show "lookup (revert_loop d b) k = (case map_of d k of None \<Rightarrow> lookup b k | Some p \<Rightarrow> p)"
      using r map_of_eq_None_iff [of d k] by (cases "map_of d k") auto
  qed
qed

subsection \<open>commit\<close>

lemma commit_loop_cache: "cache (state_after (commit_loop d s)) = cache s"
  by (induction d s rule: commit_loop.induct) (auto split: option.splits)

lemma commit_loop_stats: "stats (state_after (commit_loop d s)) = stats s"
  by (induction d s rule: commit_loop.induct) (auto split: option.splits)

lemma commit_cache: "cache (state_after (commit s)) = cache s"
  by (simp add: commit_def Let_def commit_loop_cache)

lemma commit_loop_keys:
  "\<forall>l\<in>set (diffCache s). k \<notin> fst ` set l \<Longrightarrow> k \<notin> fst ` set d \<Longrightarrow>
     \<forall>l\<in>set (diffCache (state_after (commit_loop d s))). k \<notin> fst ` set l"
proof (induction d s rule: commit_loop.induct)
  case (1 s)
  then show ?case by simp
next
  case (2 addressHex element rest s)
  note layers = "2.prems"(1)
  show ?case
  proof (cases "at_index (diffCache s) (checkpoints s)")
    case None
    then show ?thesis using layers by simp
  next
    case (Some parent)
    let ?s = "s\<lparr>diffCache := (diffCache s)[nat (checkpoints s) := setElement addressHex element parent]\<rparr>"
    have pin: "parent \<in> set (diffCache s)"
      using Some by (auto simp: at_index_def split: if_splits)
    have ne: "k \<noteq> addressHex" and rest: "k \<notin> fst ` set rest" using "2.prems"(2) by auto
    have "k \<notin> fst ` set (setElement addressHex element parent)"
      using pin layers ne by (simp add: keys_setElement)
    then have upd: "\<forall>l\<in>set (diffCache ?s). k \<notin> fst ` set l"
      using layers set_update_subset_insert [of "diffCache s" "nat (checkpoints s)"] by auto
    show ?thesis
    proof (cases "getElementByKey addressHex parent")
      case None
      then show ?thesis using Some "2.IH"(1) [OF Some None upd rest] by simp
    next
      case outer: (Some v)
      show ?thesis
      proof (cases v)
        case None
        then show ?thesis using Some outer "2.IH"(2) [OF Some outer None upd rest] by simp
      next
        case inner: (Some oldElem)
        then show ?thesis using Some outer "2.IH"(3) [OF Some outer inner layers rest] by simp
      qed
    qed
  qed
qed

subsection \<open>The shape of the object is kept\<close>

lemma new_well_formed: "well_formed (new_AccountCache t)"
  by (simp add: well_formed_def new_AccountCache_def ordered_def)


lemma mutate_well_formed:
  "well_formed s \<Longrightarrow> \<exists>s'. mutate serialize m s = Inr s' \<and> well_formed s'"
  using mutate_first [of s serialize m] by blast

lemma flush_well_formed:
  assumes "well_formed s"
  shows "\<exists>items s'. flush s = Inr (items, s') \<and> well_formed s'"
proof -
  from flush_eq [OF well_formed_top [OF assms]]
  obtain b where "flush s = Inr (present_items (cache s) (map fst (last (diffCache s))),
      s\<lparr>cache := b, diffCache := (diffCache s)[nat (checkpoints s) := []]\<rparr>)"
    by blast
  moreover have "well_formed (s\<lparr>cache := b, diffCache := (diffCache s)[nat (checkpoints s) := []]\<rparr>)"
    using assms by (simp add: well_formed_def list_all_update ordered_def)
  ultimately show ?thesis by blast
qed

lemma revert_well_formed:
  assumes "well_formed s" and "0 < checkpoints s"
  shows "\<exists>s'. revert s = Inr s' \<and> well_formed s' \<and> checkpoints s' = checkpoints s - 1"
proof -
  have ne: "diffCache s \<noteq> []" using assms(1) by (auto simp: well_formed_def)
  have "list_all ordered (butlast (diffCache s))"
    using assms(1) by (auto simp: well_formed_def list_all_iff dest: in_set_butlastD)
  then show ?thesis
    using assms ne by (simp add: revert_def Let_def well_formed_def)
qed

lemma commit_loop_well_formed:
  assumes "well_formed s" and "ordered d"
  shows "\<exists>s'. commit_loop d s = Inr s' \<and> well_formed s' \<and> checkpoints s' = checkpoints s
            \<and> cache s' = cache s \<and> stats s' = stats s"
  using assms
proof (induction d arbitrary: s)
  case Nil
  then show ?case by simp
next
  case (Cons e d)
  obtain k p where e: "e = (k, p)" by (cases e)
  let ?parent = "last (diffCache s)"
  let ?s = "s\<lparr>diffCache := (diffCache s)[nat (checkpoints s) := setElement k p ?parent]\<rparr>"
  have top: "at_index (diffCache s) (checkpoints s) = Some ?parent"
    using Cons.prems(1) by (rule well_formed_top)
  have ne: "diffCache s \<noteq> []" using Cons.prems(1) by (auto simp: well_formed_def)
  have "ordered ?parent" using Cons.prems(1) ne by (simp add: well_formed_def list_all_iff)
  then have "ordered (setElement k p ?parent)" by (rule ordered_setElement)
  then have wf: "well_formed ?s"
    using Cons.prems(1) by (simp add: well_formed_def list_all_update)
  have od: "ordered d" using Cons.prems(2) by (simp add: ordered_def)
  from Cons.IH [OF wf od] Cons.IH [OF Cons.prems(1) od]
  show ?case using top by (auto simp: e split: option.splits)
qed

lemma commit_well_formed:
  assumes "well_formed s" and "0 < checkpoints s"
  shows "\<exists>s'. commit s = Inr s' \<and> well_formed s' \<and> checkpoints s' = checkpoints s - 1
            \<and> length (diffCache s') = length (diffCache s) - 1
            \<and> cache s' = cache s \<and> stats s' = stats s"
proof -
  let ?s = "s\<lparr>checkpoints := checkpoints s - 1, diffCache := butlast (diffCache s)\<rparr>"
  have ne: "diffCache s \<noteq> []" using assms(1) by (auto simp: well_formed_def)
  have "list_all ordered (butlast (diffCache s))"
    using assms(1) by (auto simp: well_formed_def list_all_iff dest: in_set_butlastD)
  then have wf: "well_formed ?s" using assms by (simp add: well_formed_def)
  have od: "ordered (last (diffCache s))"
    using assms(1) ne by (simp add: well_formed_def list_all_iff)
  from commit_loop_well_formed [OF wf od]
  obtain s' where s': "commit_loop (last (diffCache s)) ?s = Inr s'" "well_formed s'"
    "checkpoints s' = checkpoints ?s" "cache s' = cache ?s" "stats s' = stats ?s"
    by blast
  have "int (length (diffCache s')) = checkpoints s' + 1" using s'(2) by (simp add: well_formed_def)
  moreover have "int (length (diffCache s)) = checkpoints s + 1"
    using assms(1) by (simp add: well_formed_def)
  ultimately have "length (diffCache s') = length (diffCache s) - 1" using s'(3) by simp
  then show ?thesis using s' ne by (simp add: commit_def Let_def)
qed



subsection \<open>Keys never written\<close>

lemma unwritten_iff:
  "unwritten k s \<longleftrightarrow> lookup (cache s) k = None \<and> (\<forall>d\<in>set (diffCache s). k \<notin> fst ` set d)"
  by (simp add: unwritten_def list_all_iff find_key_None_iff)

lemma new_unwritten: "unwritten k (new_AccountCache t)"
  by (cases t) (simp_all add: unwritten_def new_AccountCache_def find_key_def)

lemma mutate_unwritten:
  assumes "unwritten k s" and "mutation_key m \<noteq> k"
  shows "unwritten k (state_after (mutate serialize m s))"
proof (cases "at_index (diffCache s) (checkpoints s)")
  case None
  then have "mutate serialize m s = Inl (TypeError, s)"
    by (cases m) (simp_all add: put_def del_def saveCachePreState_def)
  then show ?thesis using assms(1) by simp
next
  case (Some d)
  let ?k = "mutation_key m"
  from mutate_effect [OF Some, of serialize m]
  obtain s' where s': "mutate serialize m s = Inr s'"
    "diffCache s' =
       (if find_key ?k d \<noteq> None then diffCache s
        else (diffCache s)[nat (checkpoints s) := setElement ?k (lookup (cache s) ?k) d])"
    "cache s' =
       cache_set ?k (mutation_elem serialize m)
         (if find_key ?k d \<noteq> None then cache s else snd (cache_get ?k (cache s)))"
    by blast
  have din: "d \<in> set (diffCache s)"
    using Some by (auto simp: at_index_def split: if_splits)
  have layers: "\<forall>l\<in>set (diffCache s). k \<notin> fst ` set l" and look: "lookup (cache s) k = None"
    using assms(1) by (simp_all add: unwritten_iff)
  have "k \<notin> fst ` set (setElement ?k (lookup (cache s) ?k) d)"
    using din layers assms(2) by (simp add: keys_setElement)
  then have l': "\<forall>l\<in>set (diffCache s'). k \<notin> fst ` set l"
    using layers s'(2) set_update_subset_insert [of "diffCache s" "nat (checkpoints s)"] by auto
  have "lookup (if find_key ?k d \<noteq> None then cache s else snd (cache_get ?k (cache s))) k = None"
    using look by (simp add: cache_get_lookup)
  then have "lookup (cache s') k = None"
    using s'(3) assms(2)
      cache_set_lookup_other [of k ?k "mutation_elem serialize m"
        "if find_key ?k d \<noteq> None then cache s else snd (cache_get ?k (cache s))"]
    by auto
  then show ?thesis using s'(1) l' by (simp add: unwritten_iff)
qed

lemma get_unwritten: "unwritten k s \<Longrightarrow> unwritten k (snd (get k' s))"
  using cache_get_lookup [of k' "cache s"]
  by (cases "cache_get k' (cache s)") (simp add: unwritten_iff get_def Let_def)

lemma checkpoint_unwritten: "unwritten k s \<Longrightarrow> unwritten k (checkpoint s)"
  by (simp add: unwritten_iff checkpoint_def)

lemma commit_unwritten:
  assumes "unwritten k s"
  shows "unwritten k (state_after (commit s))"
proof -
  have layers: "\<forall>l\<in>set (diffCache s). k \<notin> fst ` set l" and look: "lookup (cache s) k = None"
    using assms by (simp_all add: unwritten_iff)
  show ?thesis
  proof (cases "diffCache s = []")
    case True
    then show ?thesis using assms by (simp add: commit_def unwritten_iff)
  next
    case False
    let ?s = "s\<lparr>checkpoints := checkpoints s - 1, diffCache := butlast (diffCache s)\<rparr>"
    have a: "\<forall>l\<in>set (diffCache ?s). k \<notin> fst ` set l"
      using layers by (auto dest: in_set_butlastD)
    have b: "k \<notin> fst ` set (last (diffCache s))" using layers False by simp
    from commit_loop_keys [OF a b] commit_loop_cache [of "last (diffCache s)" ?s]
    show ?thesis using False look by (simp add: commit_def unwritten_iff)
  qed
qed

lemma revert_unwritten:
  assumes "unwritten k s"
  shows "unwritten k (state_after (revert s))"
proof -
  have layers: "\<forall>l\<in>set (diffCache s). k \<notin> fst ` set l" and look: "lookup (cache s) k = None"
    using assms by (simp_all add: unwritten_iff)
  show ?thesis
  proof (cases "diffCache s = []")
    case True
    then show ?thesis using assms by (simp add: revert_def unwritten_iff)
  next
    case False
    have "k \<notin> fst ` set (last (diffCache s))" using layers False by simp
    from revert_loop_other [OF this, of "cache s"]
    have "lookup (revert_loop (last (diffCache s)) (cache s)) k = None" using look by auto
    then show ?thesis
      using False layers by (auto simp: revert_def unwritten_iff Let_def dest: in_set_butlastD)
  qed
qed

lemma flush_unwritten:
  assumes "unwritten k s"
  shows "unwritten k (case flush s of Inl (e, s') \<Rightarrow> s' | Inr (items, s') \<Rightarrow> s')"
proof (cases "at_index (diffCache s) (checkpoints s)")
  case None
  then show ?thesis using assms by (simp add: flush_def)
next
  case (Some d)
  from flush_eq [OF Some]
  obtain b where b: "flush s = Inr (present_items (cache s) (map fst d),
      s\<lparr>cache := b, diffCache := (diffCache s)[nat (checkpoints s) := []]\<rparr>)"
    "lookup b = lookup (cache s)"
    by blast
  have "k \<notin> fst ` set l" if "l \<in> set ((diffCache s)[nat (checkpoints s) := []])" for l
  proof -
    have "l = [] \<or> l \<in> set (diffCache s)"
      using that set_update_subset_insert [of "diffCache s" "nat (checkpoints s)" "[]"] by blast
    then show ?thesis using assms by (auto simp: unwritten_iff)
  qed
  then show ?thesis using assms b by (simp add: unwritten_iff)
qed

lemma perform_unwritten:
  "unwritten k s \<Longrightarrow> \<not> writes_key k c \<Longrightarrow> unwritten k (perform serialize c s)"
  by (cases c)
    (simp_all add: mutate_unwritten get_unwritten checkpoint_unwritten commit_unwritten
       revert_unwritten flush_unwritten)

lemma perform_all_unwritten:
  "unwritten k s \<Longrightarrow> \<forall>c\<in>set cs. \<not> writes_key k c \<Longrightarrow> unwritten k (perform_all serialize cs s)"
  by (induction cs arbitrary: s) (simp_all add: perform_unwritten)

lemma unrecorded_iff: "unrecorded k s \<longleftrightarrow> (\<forall>d\<in>set (diffCache s). k \<notin> fst ` set d)"
  by (simp add: unrecorded_def list_all_iff find_key_None_iff)

lemma mutate_unrecorded:
  assumes "unrecorded k s" and "mutation_key m \<noteq> k"
  shows "unrecorded k (state_after (mutate serialize m s))"
proof (cases "at_index (diffCache s) (checkpoints s)")
  case None
  then have "mutate serialize m s = Inl (TypeError, s)"
    by (cases m) (simp_all add: put_def del_def saveCachePreState_def)
  then show ?thesis using assms(1) by simp
next
  case (Some d)
  let ?k = "mutation_key m"
  from mutate_effect [OF Some, of serialize m]
  obtain s' where s': "mutate serialize m s = Inr s'"
    "diffCache s' =
       (if find_key ?k d \<noteq> None then diffCache s
        else (diffCache s)[nat (checkpoints s) := setElement ?k (lookup (cache s) ?k) d])"
    by blast
  have din: "d \<in> set (diffCache s)"
    using Some by (auto simp: at_index_def split: if_splits)
  have layers: "\<forall>l\<in>set (diffCache s). k \<notin> fst ` set l"
    using assms(1) by (simp add: unrecorded_iff)
  have "k \<notin> fst ` set (setElement ?k (lookup (cache s) ?k) d)"
    using din layers assms(2) by (simp add: keys_setElement)
  then have "\<forall>l\<in>set (diffCache s'). k \<notin> fst ` set l"
    using layers s'(2) set_update_subset_insert [of "diffCache s" "nat (checkpoints s)"] by auto
  then show ?thesis using s'(1) by (simp add: unrecorded_iff)
qed

lemma get_unrecorded: "unrecorded k s \<Longrightarrow> unrecorded k (snd (get k' s))"
  by (cases "cache_get k' (cache s)") (simp add: unrecorded_def get_def Let_def)

lemma checkpoint_unrecorded: "unrecorded k s \<Longrightarrow> unrecorded k (checkpoint s)"
  by (simp add: unrecorded_iff checkpoint_def)

lemma commit_unrecorded:
  assumes "unrecorded k s"
  shows "unrecorded k (state_after (commit s))"
proof -
  have layers: "\<forall>l\<in>set (diffCache s). k \<notin> fst ` set l"
    using assms by (simp add: unrecorded_iff)
  show ?thesis
  proof (cases "diffCache s = []")
    case True
    then show ?thesis using assms by (simp add: commit_def unrecorded_iff)
  next
    case False
    let ?s = "s\<lparr>checkpoints := checkpoints s - 1, diffCache := butlast (diffCache s)\<rparr>"
    have a: "\<forall>l\<in>set (diffCache ?s). k \<notin> fst ` set l"
      using layers by (auto dest: in_set_butlastD)
    have b: "k \<notin> fst ` set (last (diffCache s))" using layers False by simp
    from commit_loop_keys [OF a b]
    show ?thesis using False by (simp add: commit_def unrecorded_iff)
  qed
qed

lemma revert_unrecorded:
  assumes "unrecorded k s"
  shows "unrecorded k (state_after (revert s))"
  using assms
  by (cases "diffCache s = []") (auto simp: revert_def unrecorded_iff Let_def dest: in_set_butlastD)

lemma flush_unrecorded:
  assumes "unrecorded k s"
  shows "unrecorded k (case flush s of Inl (e, s') \<Rightarrow> s' | Inr (items, s') \<Rightarrow> s')"
proof (cases "at_index (diffCache s) (checkpoints s)")
  case None
  then show ?thesis using assms by (simp add: flush_def)
next
  case (Some d)
  from flush_eq [OF Some]
  obtain b where b: "flush s = Inr (present_items (cache s) (map fst d),
      s\<lparr>cache := b, diffCache := (diffCache s)[nat (checkpoints s) := []]\<rparr>)"
    by blast
  have "k \<notin> fst ` set l" if "l \<in> set ((diffCache s)[nat (checkpoints s) := []])" for l
  proof -
    have "l = [] \<or> l \<in> set (diffCache s)"
      using that set_update_subset_insert [of "diffCache s" "nat (checkpoints s)" "[]"] by blast
    then show ?thesis using assms by (auto simp: unrecorded_iff)
  qed
  then show ?thesis using b by (simp add: unrecorded_iff)
qed

lemma perform_unrecorded:
  "unrecorded k s \<Longrightarrow> \<not> writes_key k c \<Longrightarrow> unrecorded k (perform serialize c s)"
  by (cases c)
    (simp_all add: mutate_unrecorded get_unrecorded checkpoint_unrecorded commit_unrecorded
       revert_unrecorded flush_unrecorded)

lemma perform_all_unrecorded:
  "unrecorded k s \<Longrightarrow> list_all (\<lambda>c. \<not> writes_key k c) cs \<Longrightarrow>
     unrecorded k (perform_all serialize cs s)"
  by (induction cs arbitrary: s) (simp_all add: perform_unrecorded)

lemma flush_unrecorded_key:
  assumes "unrecorded k s" and "flush s = Inr (items, s')"
  shows "k \<notin> fst ` set items"
proof (cases "at_index (diffCache s) (checkpoints s)")
  case None
  then show ?thesis using assms(2) by (simp add: flush_def)
next
  case (Some d)
  have "d \<in> set (diffCache s)"
    using Some by (auto simp: at_index_def split: if_splits)
  then have "k \<notin> fst ` set d" using assms(1) by (simp add: unrecorded_iff)
  moreover from flush_eq [OF Some] assms(2)
  have "items = present_items (cache s) (map fst d)" by auto
  ultimately show ?thesis by (simp add: keys_present_items)
qed

subsection \<open>Evaluation on concrete objects\<close>

lemmas method_defs =
  put_def del_def get_def flush_def revert_def commit_def saveCachePreState_def
  checkpoint_def new_AccountCache_def at_index_def find_key_def getElementByKey_def
  eraseElementByKey_def lru_get_def lru_set_def lru_delete_def Let_def

section \<open>The claims\<close>

subsection \<open>Checkpoint and revert\<close>

text \<open>
  C1, as amended. Take a cache object of the shape the calls keep (depth \<open>\<ge> 0\<close>, one diff
  layer per open checkpoint above the base layer) whose backend cannot evict during the
  sequence: the unbounded map, or the bounded store when the keys it holds and the keys
  written fit its capacity together. After \<^verbatim>\<open>checkpoint()\<close> and any sequence of put and
  del calls, the calls return and \<^verbatim>\<open>revert()\<close> returns with every key of the backend at the
  value, or the absence, it had before the checkpoint: the touched keys are restored and
  the others are unchanged. The diff layers and the depth are those from before the
  checkpoint.
\<close>

theorem checkpoint_revert_round_trip:
  assumes "well_formed s" and "fits (map mutation_key ms) (cache s)"
  shows "\<exists>s1 s2. mutate_all serialize ms (checkpoint s) = Inr s1 \<and> revert s1 = Inr s2
           \<and> lookup (cache s2) = lookup (cache s)
           \<and> diffCache s2 = diffCache s \<and> checkpoints s2 = checkpoints s"
proof -
  let ?ks = "map mutation_key ms"
  let ?c = "checkpoint s"
  have cp: "checkpoints ?c = int (length (diffCache s))"
    using assms(1) by (simp add: checkpoint_def well_formed_def)
  have dc: "diffCache ?c = diffCache s @ [[]]" by (simp add: checkpoint_def)
  have fit: "fits ?ks (cache ?c)" using assms(2) by (simp add: checkpoint_def)
  from mutate_all_tracked [OF cp dc fit, of ms "lookup (cache s)" serialize]
  obtain s1 d where s1: "mutate_all serialize ms ?c = Inr s1" "checkpoints s1 = checkpoints ?c"
    "diffCache s1 = diffCache s @ [d]" "fits ?ks (cache s1)" "fst ` set d \<subseteq> set ?ks"
    "\<forall>e\<in>set d. snd e = lookup (cache s) (fst e)"
    "\<forall>k. k \<notin> fst ` set d \<longrightarrow> lookup (cache s1) k = lookup (cache s) k"
    by (auto simp: checkpoint_def)
  let ?s2 = "s1\<lparr>checkpoints := checkpoints s1 - 1, diffCache := diffCache s,
               cache := revert_loop d (cache s1)\<rparr>"
  have rev: "revert s1 = Inr ?s2" using s1(3) by (rule revert_eq)
  have "lookup (revert_loop d (cache s1)) = lookup (cache s)"
    using revert_loop_restores [OF s1(4,5,6)] s1(7) by (auto simp: fun_eq_iff)
  moreover have "checkpoints ?s2 = checkpoints s" using s1(2) by (simp add: checkpoint_def)
  ultimately show ?thesis using s1(1) rev by (intro exI [of _ s1] exI [of _ ?s2]) simp
qed

text \<open>
  The theorem on a bounded store of capacity 2 that holds \<open>aa\<close>: after the checkpoint,
  \<open>bb\<close> is put and \<open>aa\<close> deleted; the revert leaves \<open>aa\<close> with its old element and \<open>bb\<close>
  absent.
\<close>

theorem checkpoint_revert_round_trip_witness:
  "well_formed \<lparr>checkpoints = 0, diffCache = [[(''aa'', None)]],
       cache = LruCache (LRUCache 2 [(''aa'', AccountCacheElement (Some [1]))]),
       stats = \<lparr>reads = 0, hits = 0, writes = 1, dels = 0\<rparr>\<rparr>
   \<and> fits (map mutation_key [Put ''bb'' (Some [2 :: 8 word]), Del ''aa''])
        (LruCache (LRUCache 2 [(''aa'', AccountCacheElement (Some [1]))]))
   \<and> (\<exists>s1 s2.
         mutate_all (\<lambda>b. b) [Put ''bb'' (Some [2]), Del ''aa'']
           (checkpoint \<lparr>checkpoints = 0, diffCache = [[(''aa'', None)]],
              cache = LruCache (LRUCache 2 [(''aa'', AccountCacheElement (Some [1]))]),
              stats = \<lparr>reads = 0, hits = 0, writes = 1, dels = 0\<rparr>\<rparr>) = Inr s1
         \<and> revert s1 = Inr s2
         \<and> lookup (cache s2) ''aa'' = Some (AccountCacheElement (Some [1]))
         \<and> lookup (cache s2) ''bb'' = None
         \<and> diffCache s2 = [[(''aa'', None)]] \<and> checkpoints s2 = 0)"
proof -
  let ?s = "\<lparr>checkpoints = 0, diffCache = [[(''aa'', None)]],
       cache = LruCache (LRUCache 2 [(''aa'', AccountCacheElement (Some [1]))]),
       stats = \<lparr>reads = 0, hits = 0, writes = 1, dels = 0\<rparr>\<rparr>"
  let ?ms = "[Put ''bb'' (Some [2 :: 8 word]), Del ''aa'']"
  have wf: "well_formed ?s" by (simp add: well_formed_def ordered_def)
  have fit: "fits (map mutation_key ?ms) (cache ?s)" by (simp add: fits_def)
  from checkpoint_revert_round_trip [OF wf fit, of "\<lambda>b. b"]
  obtain s1 s2 where r: "mutate_all (\<lambda>b. b) ?ms (checkpoint ?s) = Inr s1" "revert s1 = Inr s2"
    "lookup (cache s2) = lookup (cache ?s)" "diffCache s2 = diffCache ?s"
    "checkpoints s2 = checkpoints ?s"
    by auto
  have "mutate_all (\<lambda>b. b) ?ms (checkpoint ?s) = Inr s1 \<and> revert s1 = Inr s2
         \<and> lookup (cache s2) ''aa'' = Some (AccountCacheElement (Some [1]))
         \<and> lookup (cache s2) ''bb'' = None
         \<and> diffCache s2 = [[(''aa'', None)]] \<and> checkpoints s2 = 0"
    using r by simp
  then have "\<exists>s1 s2. mutate_all (\<lambda>b. b) ?ms (checkpoint ?s) = Inr s1 \<and> revert s1 = Inr s2
         \<and> lookup (cache s2) ''aa'' = Some (AccountCacheElement (Some [1]))
         \<and> lookup (cache s2) ''bb'' = None
         \<and> diffCache s2 = [[(''aa'', None)]] \<and> checkpoints s2 = 0"
    by - ((rule exI)+, assumption)
  then show ?thesis using wf fit by simp
qed

text \<open>
  C1 as stated fails on a bounded store of capacity 1 that holds \<open>aa\<close>, reached by
  \<^verbatim>\<open>put(aa)\<close> and \<^verbatim>\<open>flush()\<close> on a new cache: after the checkpoint, \<^verbatim>\<open>put(bb)\<close> evicts \<open>aa\<close>; the revert deletes \<open>bb\<close> and the untouched key \<open>aa\<close>
  stays absent.
\<close>

theorem checkpoint_revert_round_trip_counterexample:
  "put (\<lambda>b. b) ''aa'' (Some [1]) (new_AccountCache (LRU 1)) =
     Inr \<lparr>checkpoints = 0, diffCache = [[(''aa'', None)]],
          cache = LruCache (LRUCache 1 [(''aa'', AccountCacheElement (Some [1]))]),
          stats = \<lparr>reads = 0, hits = 0, writes = 1, dels = 0\<rparr>\<rparr>
   \<and> flush \<lparr>checkpoints = 0, diffCache = [[(''aa'', None)]],
          cache = LruCache (LRUCache 1 [(''aa'', AccountCacheElement (Some [1]))]),
          stats = \<lparr>reads = 0, hits = 0, writes = 1, dels = 0\<rparr>\<rparr> =
     Inr ([(''aa'', AccountCacheElement (Some [1]))],
          \<lparr>checkpoints = 0, diffCache = [[]],
           cache = LruCache (LRUCache 1 [(''aa'', AccountCacheElement (Some [1]))]),
           stats = \<lparr>reads = 0, hits = 0, writes = 1, dels = 0\<rparr>\<rparr>)
   \<and> well_formed \<lparr>checkpoints = 0, diffCache = [[]],
       cache = LruCache (LRUCache 1 [(''aa'', AccountCacheElement (Some [1]))]),
       stats = \<lparr>reads = 0, hits = 0, writes = 1, dels = 0\<rparr>\<rparr>
   \<and> mutate_all (\<lambda>b. b) [Put ''bb'' (Some [2])]
       (checkpoint \<lparr>checkpoints = 0, diffCache = [[]],
          cache = LruCache (LRUCache 1 [(''aa'', AccountCacheElement (Some [1]))]),
          stats = \<lparr>reads = 0, hits = 0, writes = 1, dels = 0\<rparr>\<rparr>) =
     Inr \<lparr>checkpoints = 1, diffCache = [[], [(''bb'', None)]],
          cache = LruCache (LRUCache 1 [(''bb'', AccountCacheElement (Some [2]))]),
          stats = \<lparr>reads = 0, hits = 0, writes = 2, dels = 0\<rparr>\<rparr>
   \<and> revert \<lparr>checkpoints = 1, diffCache = [[], [(''bb'', None)]],
          cache = LruCache (LRUCache 1 [(''bb'', AccountCacheElement (Some [2]))]),
          stats = \<lparr>reads = 0, hits = 0, writes = 2, dels = 0\<rparr>\<rparr> =
     Inr \<lparr>checkpoints = 0, diffCache = [[]],
          cache = LruCache (LRUCache 1 []),
          stats = \<lparr>reads = 0, hits = 0, writes = 2, dels = 0\<rparr>\<rparr>
   \<and> lookup (LruCache (LRUCache 1 [(''aa'', AccountCacheElement (Some [1]))])) ''aa''
       = Some (AccountCacheElement (Some [1]))
   \<and> lookup (LruCache (LRUCache 1 [])) ''aa'' = None"
  by (simp add: method_defs well_formed_def ordered_def)

subsection \<open>Commit\<close>

text \<open>
  C2. The claim asks that \<^verbatim>\<open>commit()\<close> never overwrites an entry of the parent layer, also
  when that entry records that the key was absent. The code tests
  \<^verbatim>\<open>oldElem === undefined\<close> on the value read with \<^verbatim>\<open>getElementByKey\<close>, which is \<^verbatim>\<open>undefined\<close>
  for such an entry too. On a new cache with the unbounded map: checkpoint, put \<open>aa\<close>
  (the layer records that \<open>aa\<close> was absent), checkpoint, put \<open>aa\<close> again (the inner layer
  records the first element), commit, revert. The commit replaces the parent's entry by
  the inner pre-image, and the revert of the outer checkpoint leaves \<open>aa\<close> in the backend
  with the first element, although \<open>aa\<close> was absent before the outer checkpoint.
\<close>

theorem commit_overwrites_absent_pre_image:
  "put (\<lambda>b. b) ''aa'' (Some [2]) (checkpoint (new_AccountCache ORDERED_MAP)) =
     Inr \<lparr>checkpoints = 1, diffCache = [[], [(''aa'', None)]],
          cache = OrderedMapCache [(''aa'', AccountCacheElement (Some [2]))],
          stats = \<lparr>reads = 0, hits = 0, writes = 1, dels = 0\<rparr>\<rparr>
   \<and> put (\<lambda>b. b) ''aa'' (Some [3])
       (checkpoint \<lparr>checkpoints = 1, diffCache = [[], [(''aa'', None)]],
          cache = OrderedMapCache [(''aa'', AccountCacheElement (Some [2]))],
          stats = \<lparr>reads = 0, hits = 0, writes = 1, dels = 0\<rparr>\<rparr>) =
     Inr \<lparr>checkpoints = 2,
          diffCache = [[], [(''aa'', None)], [(''aa'', Some (AccountCacheElement (Some [2])))]],
          cache = OrderedMapCache [(''aa'', AccountCacheElement (Some [3]))],
          stats = \<lparr>reads = 0, hits = 0, writes = 2, dels = 0\<rparr>\<rparr>
   \<and> commit \<lparr>checkpoints = 2,
          diffCache = [[], [(''aa'', None)], [(''aa'', Some (AccountCacheElement (Some [2])))]],
          cache = OrderedMapCache [(''aa'', AccountCacheElement (Some [3]))],
          stats = \<lparr>reads = 0, hits = 0, writes = 2, dels = 0\<rparr>\<rparr> =
     Inr \<lparr>checkpoints = 1,
          diffCache = [[], [(''aa'', Some (AccountCacheElement (Some [2])))]],
          cache = OrderedMapCache [(''aa'', AccountCacheElement (Some [3]))],
          stats = \<lparr>reads = 0, hits = 0, writes = 2, dels = 0\<rparr>\<rparr>
   \<and> revert \<lparr>checkpoints = 1,
          diffCache = [[], [(''aa'', Some (AccountCacheElement (Some [2])))]],
          cache = OrderedMapCache [(''aa'', AccountCacheElement (Some [3]))],
          stats = \<lparr>reads = 0, hits = 0, writes = 2, dels = 0\<rparr>\<rparr> =
     Inr \<lparr>checkpoints = 0, diffCache = [[]],
          cache = OrderedMapCache [(''aa'', AccountCacheElement (Some [2]))],
          stats = \<lparr>reads = 0, hits = 0, writes = 2, dels = 0\<rparr>\<rparr>
   \<and> lookup (cache (new_AccountCache ORDERED_MAP)) ''aa'' = None"
  by (simp add: method_defs)

subsection \<open>Commit and revert at depth 0\<close>

text \<open>
  C3, as amended. Take an object in the shape the calls keep at depth 0, the base layer
  being the only layer. Neither method has a guard and neither fails with an error of its
  own. \<^verbatim>\<open>revert()\<close> returns: the depth is \<open>-1\<close>, the base layer is popped, the counters are
  unchanged, and the pre-images of the base layer are written back to the backend. When
  nothing can be evicted (the unbounded map, or the keys of the base layer fit the
  bounded store), every key the base layer records is at its recorded pre-image
  afterwards, removed when that pre-image is absent, and every other key is unchanged; in
  every case each key is at that value or evicted. \<^verbatim>\<open>commit()\<close> sets the depth to \<open>-1\<close> and
  pops the base layer as well; it returns when the popped layer is empty and otherwise
  throws a TypeError on the missing parent layer; it leaves the backend and the counters
  as they are.
\<close>

theorem depth_zero_commit_revert:
  assumes "well_formed s" and "checkpoints s = 0" and "diffCache s = [base]"
  shows "(\<exists>s'. revert s = Inr s' \<and> checkpoints s' = - 1 \<and> diffCache s' = [] \<and> stats s' = stats s
            \<and> (\<forall>k. lookup (cache s') k = None
                  \<or> lookup (cache s') k = (case map_of base k of None \<Rightarrow> lookup (cache s) k | Some p \<Rightarrow> p))
            \<and> (fits (map fst base) (cache s) \<longrightarrow>
                  lookup (cache s')
                    = (\<lambda>k. case map_of base k of None \<Rightarrow> lookup (cache s) k | Some p \<Rightarrow> p)))
         \<and> commit s =
             (if base = [] then Inr (s\<lparr>checkpoints := - 1, diffCache := []\<rparr>)
              else Inl (TypeError, s\<lparr>checkpoints := - 1, diffCache := []\<rparr>))"
proof -
  have dist: "distinct (map fst base)"
    using assms(1,3) by (simp add: well_formed_def ordered_distinct)
  let ?s' = "s\<lparr>checkpoints := - 1, diffCache := [], cache := revert_loop base (cache s)\<rparr>"
  have rev: "revert s = Inr ?s'" using assms(2,3) by (simp add: revert_def Let_def)
  have each: "\<forall>k. lookup (cache ?s') k = None
                  \<or> lookup (cache ?s') k = (case map_of base k of None \<Rightarrow> lookup (cache s) k | Some p \<Rightarrow> p)"
    using revert_loop_each [OF dist, of "cache s"] by simp
  have exact: "fits (map fst base) (cache s) \<longrightarrow>
                  lookup (cache ?s')
                    = (\<lambda>k. case map_of base k of None \<Rightarrow> lookup (cache s) k | Some p \<Rightarrow> p)"
    using revert_loop_exact [OF dist, of "cache s"] by simp
  have a: "\<exists>s'. revert s = Inr s' \<and> checkpoints s' = - 1 \<and> diffCache s' = [] \<and> stats s' = stats s
            \<and> (\<forall>k. lookup (cache s') k = None
                  \<or> lookup (cache s') k = (case map_of base k of None \<Rightarrow> lookup (cache s) k | Some p \<Rightarrow> p))
            \<and> (fits (map fst base) (cache s) \<longrightarrow>
                  lookup (cache s')
                    = (\<lambda>k. case map_of base k of None \<Rightarrow> lookup (cache s) k | Some p \<Rightarrow> p))"
    using rev each exact by (intro exI [of _ ?s']) simp
  have "commit_loop base (s\<lparr>checkpoints := - 1, diffCache := []\<rparr>) =
          (if base = [] then Inr (s\<lparr>checkpoints := - 1, diffCache := []\<rparr>)
           else Inl (TypeError, s\<lparr>checkpoints := - 1, diffCache := []\<rparr>))"
    by (cases base) (auto simp: at_index_def)
  then have b: "commit s =
             (if base = [] then Inr (s\<lparr>checkpoints := - 1, diffCache := []\<rparr>)
              else Inl (TypeError, s\<lparr>checkpoints := - 1, diffCache := []\<rparr>))"
    using assms(2,3) by (simp add: commit_def Let_def)
  show ?thesis using a b by (rule conjI)
qed

text \<open>
  The theorem on the unbounded map at depth 0 with a base layer that records \<open>aa\<close> as
  absent before and \<open>bb\<close> with an earlier element: \<^verbatim>\<open>revert()\<close> removes \<open>aa\<close> and puts the
  earlier element of \<open>bb\<close> back; \<^verbatim>\<open>commit()\<close> throws, with the depth at \<open>-1\<close> and the stack of
  layers empty.
\<close>

theorem depth_zero_commit_revert_witness:
  "well_formed \<lparr>checkpoints = 0,
       diffCache = [[(''aa'', None), (''bb'', Some (AccountCacheElement (Some [0])))]],
       cache = OrderedMapCache [(''aa'', AccountCacheElement (Some [1])),
                                (''bb'', AccountCacheElement (Some [2]))],
       stats = \<lparr>reads = 0, hits = 0, writes = 3, dels = 0\<rparr>\<rparr>
   \<and> fits (map fst [(''aa'', None), (''bb'', Some (AccountCacheElement (Some [0])))])
        (OrderedMapCache [(''aa'', AccountCacheElement (Some [1])),
                          (''bb'', AccountCacheElement (Some [2]))])
   \<and> (\<exists>s'. revert \<lparr>checkpoints = 0,
               diffCache = [[(''aa'', None), (''bb'', Some (AccountCacheElement (Some [0])))]],
               cache = OrderedMapCache [(''aa'', AccountCacheElement (Some [1])),
                                        (''bb'', AccountCacheElement (Some [2]))],
               stats = \<lparr>reads = 0, hits = 0, writes = 3, dels = 0\<rparr>\<rparr> = Inr s'
          \<and> checkpoints s' = - 1 \<and> diffCache s' = []
          \<and> stats s' = \<lparr>reads = 0, hits = 0, writes = 3, dels = 0\<rparr>
          \<and> lookup (cache s') ''aa'' = None
          \<and> lookup (cache s') ''bb'' = Some (AccountCacheElement (Some [0])))
   \<and> commit \<lparr>checkpoints = 0,
               diffCache = [[(''aa'', None), (''bb'', Some (AccountCacheElement (Some [0])))]],
               cache = OrderedMapCache [(''aa'', AccountCacheElement (Some [1])),
                                        (''bb'', AccountCacheElement (Some [2]))],
               stats = \<lparr>reads = 0, hits = 0, writes = 3, dels = 0\<rparr>\<rparr> =
       Inl (TypeError,
            \<lparr>checkpoints = - 1, diffCache = [],
             cache = OrderedMapCache [(''aa'', AccountCacheElement (Some [1])),
                                      (''bb'', AccountCacheElement (Some [2]))],
             stats = \<lparr>reads = 0, hits = 0, writes = 3, dels = 0\<rparr>\<rparr>)"
proof -
  let ?base = "[(''aa'', None), (''bb'', Some (AccountCacheElement (Some [0])))]"
  let ?s = "\<lparr>checkpoints = 0, diffCache = [?base],
       cache = OrderedMapCache [(''aa'', AccountCacheElement (Some [1])),
                                (''bb'', AccountCacheElement (Some [2]))],
       stats = \<lparr>reads = 0, hits = 0, writes = 3, dels = 0\<rparr>\<rparr>"
  have wf: "well_formed ?s" by (simp add: well_formed_def ordered_def)
  have fit: "fits (map fst ?base) (cache ?s)" by (simp add: fits_def)
  have cp: "checkpoints ?s = 0" and dc: "diffCache ?s = [?base]" by simp_all
  note r = depth_zero_commit_revert [OF wf cp dc]
  from r [THEN conjunct1] obtain s' where s': "revert ?s = Inr s'" "checkpoints s' = - 1"
    "diffCache s' = []" "stats s' = stats ?s"
    "fits (map fst ?base) (cache ?s) \<longrightarrow>
       lookup (cache s') = (\<lambda>k. case map_of ?base k of None \<Rightarrow> lookup (cache ?s) k | Some p \<Rightarrow> p)"
    by auto
  have "lookup (cache s') = (\<lambda>k. case map_of ?base k of None \<Rightarrow> lookup (cache ?s) k | Some p \<Rightarrow> p)"
    using s'(5) fit by simp
  then have "lookup (cache s') ''aa'' = None"
    and "lookup (cache s') ''bb'' = Some (AccountCacheElement (Some [0]))"
    by simp_all
  then have a: "\<exists>s'. revert ?s = Inr s' \<and> checkpoints s' = - 1 \<and> diffCache s' = []
          \<and> stats s' = \<lparr>reads = 0, hits = 0, writes = 3, dels = 0\<rparr>
          \<and> lookup (cache s') ''aa'' = None
          \<and> lookup (cache s') ''bb'' = Some (AccountCacheElement (Some [0]))"
    using s'(1-4) by (intro exI [of _ s']) simp
  have b: "commit ?s = Inl (TypeError,
            \<lparr>checkpoints = - 1, diffCache = [],
             cache = OrderedMapCache [(''aa'', AccountCacheElement (Some [1])),
                                      (''bb'', AccountCacheElement (Some [2]))],
             stats = \<lparr>reads = 0, hits = 0, writes = 3, dels = 0\<rparr>\<rparr>)"
    using r [THEN conjunct2] by simp
  from wf fit a b show ?thesis using cp by simp
qed

text \<open>
  C3 as stated fails: at depth 0, after \<^verbatim>\<open>put(aa)\<close> on a new cache, \<^verbatim>\<open>revert()\<close> returns
  without error, removes \<open>aa\<close> from the backend and empties the stack of layers; on a new
  cache \<^verbatim>\<open>commit()\<close> returns without error and empties the stack of layers.
\<close>

theorem depth_zero_commit_revert_counterexample:
  "put (\<lambda>b. b) ''aa'' (Some [1]) (new_AccountCache ORDERED_MAP) =
     Inr \<lparr>checkpoints = 0, diffCache = [[(''aa'', None)]],
          cache = OrderedMapCache [(''aa'', AccountCacheElement (Some [1]))],
          stats = \<lparr>reads = 0, hits = 0, writes = 1, dels = 0\<rparr>\<rparr>
   \<and> revert \<lparr>checkpoints = 0, diffCache = [[(''aa'', None)]],
           cache = OrderedMapCache [(''aa'', AccountCacheElement (Some [1]))],
           stats = \<lparr>reads = 0, hits = 0, writes = 1, dels = 0\<rparr>\<rparr> =
     Inr \<lparr>checkpoints = - 1, diffCache = [], cache = OrderedMapCache [],
          stats = \<lparr>reads = 0, hits = 0, writes = 1, dels = 0\<rparr>\<rparr>
   \<and> commit (new_AccountCache ORDERED_MAP) =
     Inr \<lparr>checkpoints = - 1, diffCache = [], cache = OrderedMapCache [],
          stats = \<lparr>reads = 0, hits = 0, writes = 0, dels = 0\<rparr>\<rparr>"
  by (simp add: method_defs)

subsection \<open>First mutation only\<close>




subsection \<open>Flush\<close>







text \<open>
  C10, as amended. \<^verbatim>\<open>flush()\<close> returns exactly the pairs of the keys that the flushed
  layer records and the backend holds. A recorded key without backend entry is left out,
  and its entry in the layer is discarded all the same, the layer being empty afterwards.
  A later \<^verbatim>\<open>flush()\<close> does not report the key unless the key is written again or another
  layer records it: not at this depth after put and del calls on other keys, and, when no
  other layer records the key, after no sequence of calls that does not write the key.
\<close>

theorem flush_omits_absent_keys:
  assumes "at_index (diffCache s) (checkpoints s) = Some d"
  shows "\<exists>items s1. flush s = Inr (items, s1)
           \<and> set items = {(k, v). k \<in> fst ` set d \<and> lookup (cache s) k = Some v}
           \<and> (\<forall>k\<in>fst ` set d. lookup (cache s) k = None \<longrightarrow> k \<notin> fst ` set items)
           \<and> at_index (diffCache s1) (checkpoints s1) = Some []
           \<and> (\<forall>ms k. k \<notin> mutation_key ` set ms \<longrightarrow>
                (\<exists>s2 items2 s3. mutate_all serialize ms s1 = Inr s2
                   \<and> flush s2 = Inr (items2, s3) \<and> k \<notin> fst ` set items2))
           \<and> (\<forall>cs k items2 s3.
                unrecorded k s1 \<and> list_all (\<lambda>c. \<not> writes_key k c) cs
                \<and> flush (perform_all serialize cs s1) = Inr (items2, s3)
                \<longrightarrow> k \<notin> fst ` set items2)"
proof -
  let ?items = "present_items (cache s) (map fst d)"
  from flush_eq [OF assms]
  obtain b where b: "flush s = Inr (?items, s\<lparr>cache := b, diffCache := (diffCache s)[nat (checkpoints s) := []]\<rparr>)"
    by blast
  let ?s1 = "s\<lparr>cache := b, diffCache := (diffCache s)[nat (checkpoints s) := []]\<rparr>"
  have top1: "at_index (diffCache ?s1) (checkpoints ?s1) = Some []"
    using at_index_update [OF assms] by simp
  have items: "set ?items = {(k, v). k \<in> fst ` set d \<and> lookup (cache s) k = Some v}"
    by (simp add: set_present_items)
  have omitted: "\<forall>k\<in>fst ` set d. lookup (cache s) k = None \<longrightarrow> k \<notin> fst ` set ?items"
    by (simp add: keys_present_items)
  have later: "\<exists>s2 items2 s3. mutate_all serialize ms ?s1 = Inr s2
                 \<and> flush s2 = Inr (items2, s3) \<and> k \<notin> fst ` set items2"
    if "k \<notin> mutation_key ` set ms" for ms k
  proof -
    from mutate_all_top_keys [OF top1, of serialize ms]
    obtain s2 d2 where s2: "mutate_all serialize ms ?s1 = Inr s2"
      "at_index (diffCache s2) (checkpoints s2) = Some d2"
      "fst ` set d2 = mutation_key ` set ms"
      by auto
    from flush_eq [OF s2(2)]
    obtain s3 where "flush s2 = Inr (present_items (cache s2) (map fst d2), s3)" by blast
    moreover have "k \<notin> fst ` set (present_items (cache s2) (map fst d2))"
      using that s2(3) by (simp add: keys_present_items)
    ultimately show ?thesis using s2(1) by blast
  qed
  have wider: "k \<notin> fst ` set items2"
    if "unrecorded k ?s1" "list_all (\<lambda>c. \<not> writes_key k c) cs"
      "flush (perform_all serialize cs ?s1) = Inr (items2, s3)" for cs k items2 s3
    using flush_unrecorded_key [OF perform_all_unrecorded [OF that(1,2)] that(3)] .
  have "flush s = Inr (?items, ?s1)
           \<and> set ?items = {(k, v). k \<in> fst ` set d \<and> lookup (cache s) k = Some v}
           \<and> (\<forall>k\<in>fst ` set d. lookup (cache s) k = None \<longrightarrow> k \<notin> fst ` set ?items)
           \<and> at_index (diffCache ?s1) (checkpoints ?s1) = Some []
           \<and> (\<forall>ms k. k \<notin> mutation_key ` set ms \<longrightarrow>
                (\<exists>s2 items2 s3. mutate_all serialize ms ?s1 = Inr s2
                   \<and> flush s2 = Inr (items2, s3) \<and> k \<notin> fst ` set items2))
           \<and> (\<forall>cs k items2 s3.
                unrecorded k ?s1 \<and> list_all (\<lambda>c. \<not> writes_key k c) cs
                \<and> flush (perform_all serialize cs ?s1) = Inr (items2, s3)
                \<longrightarrow> k \<notin> fst ` set items2)"
  proof (intro conjI)
    show "flush s = Inr (?items, ?s1)" by (rule b)
    show "set ?items = {(k, v). k \<in> fst ` set d \<and> lookup (cache s) k = Some v}" by (rule items)
    show "\<forall>k\<in>fst ` set d. lookup (cache s) k = None \<longrightarrow> k \<notin> fst ` set ?items" by (rule omitted)
    show "at_index (diffCache ?s1) (checkpoints ?s1) = Some []" by (rule top1)
    show "\<forall>ms k. k \<notin> mutation_key ` set ms \<longrightarrow>
                (\<exists>s2 items2 s3. mutate_all serialize ms ?s1 = Inr s2
                   \<and> flush s2 = Inr (items2, s3) \<and> k \<notin> fst ` set items2)"
      by (intro allI impI) (rule later)
    show "\<forall>cs k items2 s3.
                unrecorded k ?s1 \<and> list_all (\<lambda>c. \<not> writes_key k c) cs
                \<and> flush (perform_all serialize cs ?s1) = Inr (items2, s3)
                \<longrightarrow> k \<notin> fst ` set items2"
      by (intro allI impI, elim conjE) (rule wider)
  qed
  then show ?thesis by - ((rule exI)+, assumption)
qed

text \<open>
  The theorem on a bounded store of capacity 1 after \<^verbatim>\<open>put(aa)\<close> and \<^verbatim>\<open>put(bb)\<close> at depth
  0: \<open>aa\<close> is recorded and evicted, and it is reported neither by this flush, nor by the
  one after a further \<^verbatim>\<open>put(bb)\<close>, nor by the one after checkpoint, \<^verbatim>\<open>put(bb)\<close> and commit.
\<close>

theorem flush_omits_absent_keys_witness:
  "at_index [[(''aa'', None), (''bb'', None :: AccountCacheElement option)]] 0
     = Some [(''aa'', None), (''bb'', None)]
   \<and> lookup (LruCache (LRUCache 1 [(''bb'', AccountCacheElement (Some [2]))])) ''aa'' = None
   \<and> (\<exists>items s1.
         flush \<lparr>checkpoints = 0, diffCache = [[(''aa'', None), (''bb'', None)]],
             cache = LruCache (LRUCache 1 [(''bb'', AccountCacheElement (Some [2]))]),
             stats = \<lparr>reads = 0, hits = 0, writes = 2, dels = 0\<rparr>\<rparr> = Inr (items, s1)
         \<and> ''aa'' \<notin> fst ` set items
         \<and> (''bb'', AccountCacheElement (Some [2])) \<in> set items
         \<and> at_index (diffCache s1) (checkpoints s1) = Some []
         \<and> (\<exists>s2 items2 s3. mutate_all (\<lambda>b. b) [Put ''bb'' (Some [3])] s1 = Inr s2
               \<and> flush s2 = Inr (items2, s3) \<and> ''aa'' \<notin> fst ` set items2)
         \<and> (\<exists>items2 s3.
               flush (perform_all (\<lambda>b. b) [Checkpoint, Mutate (Put ''bb'' (Some [3])), Commit] s1)
                 = Inr (items2, s3)
               \<and> ''aa'' \<notin> fst ` set items2))"
proof -
  let ?s = "\<lparr>checkpoints = 0, diffCache = [[(''aa'', None), (''bb'', None)]],
             cache = LruCache (LRUCache 1 [(''bb'', AccountCacheElement (Some [2]))]),
             stats = \<lparr>reads = 0, hits = 0, writes = 2, dels = 0\<rparr>\<rparr>"
  have top: "at_index (diffCache ?s) (checkpoints ?s) = Some [(''aa'', None), (''bb'', None)]"
    by (simp add: at_index_def)
  from flush_omits_absent_keys [OF top, of "\<lambda>b. b"]
  obtain items s1 where r: "flush ?s = Inr (items, s1)"
    "set items = {(k, v). k \<in> fst ` set [(''aa'', None :: AccountCacheElement option), (''bb'', None)]
                    \<and> lookup (cache ?s) k = Some v}"
    "\<forall>k\<in>fst ` set [(''aa'', None :: AccountCacheElement option), (''bb'', None)].
        lookup (cache ?s) k = None \<longrightarrow> k \<notin> fst ` set items"
    "at_index (diffCache s1) (checkpoints s1) = Some []"
    "\<forall>ms k. k \<notin> mutation_key ` set ms \<longrightarrow>
        (\<exists>s2 items2 s3. mutate_all (\<lambda>b. b) ms s1 = Inr s2
           \<and> flush s2 = Inr (items2, s3) \<and> k \<notin> fst ` set items2)"
    "\<forall>cs k items2 s3.
        unrecorded k s1 \<and> list_all (\<lambda>c. \<not> writes_key k c) cs
        \<and> flush (perform_all (\<lambda>b. b) cs s1) = Inr (items2, s3)
        \<longrightarrow> k \<notin> fst ` set items2"
    by (elim exE conjE) (rule that)
  let ?cs = "[Checkpoint, Mutate (Put ''bb'' (Some [3 :: 8 word])), Commit]"
  have fc: "flush ?s = Inr ([(''bb'', AccountCacheElement (Some [2]))],
          \<lparr>checkpoints = 0, diffCache = [[]],
           cache = LruCache (LRUCache 1 [(''bb'', AccountCacheElement (Some [2]))]),
           stats = \<lparr>reads = 0, hits = 0, writes = 2, dels = 0\<rparr>\<rparr>)"
    by (simp add: method_defs)
  from r(1) [unfolded fc]
  have s1: "s1 = \<lparr>checkpoints = 0, diffCache = [[]],
           cache = LruCache (LRUCache 1 [(''bb'', AccountCacheElement (Some [2]))]),
           stats = \<lparr>reads = 0, hits = 0, writes = 2, dels = 0\<rparr>\<rparr>"
    by auto
  have un: "unrecorded ''aa'' s1" unfolding s1 by (simp add: unrecorded_def find_key_def)
  have cs: "list_all (\<lambda>c. \<not> writes_key ''aa'' c) ?cs" by simp
  have fl: "flush (perform_all (\<lambda>b. b) ?cs s1) =
      Inr ([(''bb'', AccountCacheElement (Some [3]))],
           \<lparr>checkpoints = 0, diffCache = [[]],
            cache = LruCache (LRUCache 1 [(''bb'', AccountCacheElement (Some [3]))]),
            stats = \<lparr>reads = 0, hits = 0, writes = 3, dels = 0\<rparr>\<rparr>)"
    unfolding s1 by (simp add: method_defs)
  have "''aa'' \<notin> fst ` set [(''bb'', AccountCacheElement (Some [3]))]"
    using r(6) un cs fl by blast
  then have d: "\<exists>items2 s3. flush (perform_all (\<lambda>b. b) ?cs s1) = Inr (items2, s3)
               \<and> ''aa'' \<notin> fst ` set items2"
    using fl by blast
  have a: "''aa'' \<notin> fst ` set items" using r(3) by simp
  have b: "(''bb'', AccountCacheElement (Some [2])) \<in> set items" unfolding r(2) by simp
  have c: "\<exists>s2 items2 s3. mutate_all (\<lambda>b. b) [Put ''bb'' (Some [3])] s1 = Inr s2
               \<and> flush s2 = Inr (items2, s3) \<and> ''aa'' \<notin> fst ` set items2"
    using r(5) [rule_format, of "''aa''" "[Put ''bb'' (Some [3])]"] by simp
  have "flush ?s = Inr (items, s1) \<and> ''aa'' \<notin> fst ` set items
         \<and> (''bb'', AccountCacheElement (Some [2])) \<in> set items
         \<and> at_index (diffCache s1) (checkpoints s1) = Some []
         \<and> (\<exists>s2 items2 s3. mutate_all (\<lambda>b. b) [Put ''bb'' (Some [3])] s1 = Inr s2
               \<and> flush s2 = Inr (items2, s3) \<and> ''aa'' \<notin> fst ` set items2)
         \<and> (\<exists>items2 s3.
               flush (perform_all (\<lambda>b. b) [Checkpoint, Mutate (Put ''bb'' (Some [3])), Commit] s1)
                 = Inr (items2, s3)
               \<and> ''aa'' \<notin> fst ` set items2)"
    using r(1,4) a b c d by simp
  then have "\<exists>items s1. flush ?s = Inr (items, s1) \<and> ''aa'' \<notin> fst ` set items
         \<and> (''bb'', AccountCacheElement (Some [2])) \<in> set items
         \<and> at_index (diffCache s1) (checkpoints s1) = Some []
         \<and> (\<exists>s2 items2 s3. mutate_all (\<lambda>b. b) [Put ''bb'' (Some [3])] s1 = Inr s2
               \<and> flush s2 = Inr (items2, s3) \<and> ''aa'' \<notin> fst ` set items2)
         \<and> (\<exists>items2 s3.
               flush (perform_all (\<lambda>b. b) [Checkpoint, Mutate (Put ''bb'' (Some [3])), Commit] s1)
                 = Inr (items2, s3)
               \<and> ''aa'' \<notin> fst ` set items2)"
    by - ((rule exI)+, assumption)
  then show ?thesis using top by simp
qed

text \<open>
  C10 as stated fails on a bounded store of capacity 1: \<open>aa\<close> is put at depth 0, at depth
  1 and at depth 2, where \<^verbatim>\<open>put(bb)\<close> evicts it. The flush at depth 2 leaves \<open>aa\<close> out and
  empties the layer. After two reverts \<open>aa\<close> is back in the backend, the base layer still
  records it, and the flush at depth 0 reports \<open>aa\<close>, which was not written again.
\<close>

theorem flush_omits_absent_keys_counterexample:
  "put (\<lambda>b. b) ''aa'' (Some [1]) (new_AccountCache (LRU 1)) =
     Inr \<lparr>checkpoints = 0, diffCache = [[(''aa'', None)]],
          cache = LruCache (LRUCache 1 [(''aa'', AccountCacheElement (Some [1]))]),
          stats = \<lparr>reads = 0, hits = 0, writes = 1, dels = 0\<rparr>\<rparr>
   \<and> put (\<lambda>b. b) ''aa'' (Some [2])
       (checkpoint \<lparr>checkpoints = 0, diffCache = [[(''aa'', None)]],
          cache = LruCache (LRUCache 1 [(''aa'', AccountCacheElement (Some [1]))]),
          stats = \<lparr>reads = 0, hits = 0, writes = 1, dels = 0\<rparr>\<rparr>) =
     Inr \<lparr>checkpoints = 1,
          diffCache = [[(''aa'', None)], [(''aa'', Some (AccountCacheElement (Some [1])))]],
          cache = LruCache (LRUCache 1 [(''aa'', AccountCacheElement (Some [2]))]),
          stats = \<lparr>reads = 0, hits = 0, writes = 2, dels = 0\<rparr>\<rparr>
   \<and> mutate_all (\<lambda>b. b) [Put ''aa'' (Some [3]), Put ''bb'' (Some [4])]
       (checkpoint \<lparr>checkpoints = 1,
          diffCache = [[(''aa'', None)], [(''aa'', Some (AccountCacheElement (Some [1])))]],
          cache = LruCache (LRUCache 1 [(''aa'', AccountCacheElement (Some [2]))]),
          stats = \<lparr>reads = 0, hits = 0, writes = 2, dels = 0\<rparr>\<rparr>) =
     Inr \<lparr>checkpoints = 2,
          diffCache = [[(''aa'', None)], [(''aa'', Some (AccountCacheElement (Some [1])))],
                       [(''aa'', Some (AccountCacheElement (Some [2]))), (''bb'', None)]],
          cache = LruCache (LRUCache 1 [(''bb'', AccountCacheElement (Some [4]))]),
          stats = \<lparr>reads = 0, hits = 0, writes = 4, dels = 0\<rparr>\<rparr>
   \<and> flush \<lparr>checkpoints = 2,
          diffCache = [[(''aa'', None)], [(''aa'', Some (AccountCacheElement (Some [1])))],
                       [(''aa'', Some (AccountCacheElement (Some [2]))), (''bb'', None)]],
          cache = LruCache (LRUCache 1 [(''bb'', AccountCacheElement (Some [4]))]),
          stats = \<lparr>reads = 0, hits = 0, writes = 4, dels = 0\<rparr>\<rparr> =
     Inr ([(''bb'', AccountCacheElement (Some [4]))],
          \<lparr>checkpoints = 2,
           diffCache = [[(''aa'', None)], [(''aa'', Some (AccountCacheElement (Some [1])))], []],
           cache = LruCache (LRUCache 1 [(''bb'', AccountCacheElement (Some [4]))]),
           stats = \<lparr>reads = 0, hits = 0, writes = 4, dels = 0\<rparr>\<rparr>)
   \<and> revert \<lparr>checkpoints = 2,
           diffCache = [[(''aa'', None)], [(''aa'', Some (AccountCacheElement (Some [1])))], []],
           cache = LruCache (LRUCache 1 [(''bb'', AccountCacheElement (Some [4]))]),
           stats = \<lparr>reads = 0, hits = 0, writes = 4, dels = 0\<rparr>\<rparr> =
     Inr \<lparr>checkpoints = 1,
          diffCache = [[(''aa'', None)], [(''aa'', Some (AccountCacheElement (Some [1])))]],
          cache = LruCache (LRUCache 1 [(''bb'', AccountCacheElement (Some [4]))]),
          stats = \<lparr>reads = 0, hits = 0, writes = 4, dels = 0\<rparr>\<rparr>
   \<and> revert \<lparr>checkpoints = 1,
          diffCache = [[(''aa'', None)], [(''aa'', Some (AccountCacheElement (Some [1])))]],
          cache = LruCache (LRUCache 1 [(''bb'', AccountCacheElement (Some [4]))]),
          stats = \<lparr>reads = 0, hits = 0, writes = 4, dels = 0\<rparr>\<rparr> =
     Inr \<lparr>checkpoints = 0, diffCache = [[(''aa'', None)]],
          cache = LruCache (LRUCache 1 [(''aa'', AccountCacheElement (Some [1]))]),
          stats = \<lparr>reads = 0, hits = 0, writes = 4, dels = 0\<rparr>\<rparr>
   \<and> flush \<lparr>checkpoints = 0, diffCache = [[(''aa'', None)]],
          cache = LruCache (LRUCache 1 [(''aa'', AccountCacheElement (Some [1]))]),
          stats = \<lparr>reads = 0, hits = 0, writes = 4, dels = 0\<rparr>\<rparr> =
     Inr ([(''aa'', AccountCacheElement (Some [1]))],
          \<lparr>checkpoints = 0, diffCache = [[]],
           cache = LruCache (LRUCache 1 [(''aa'', AccountCacheElement (Some [1]))]),
           stats = \<lparr>reads = 0, hits = 0, writes = 4, dels = 0\<rparr>\<rparr>)"
  by (simp add: method_defs)

subsection \<open>Negative entries\<close>

text \<open>
  C7, as amended. Where the layer at the current depth exists, as it does unless
  \<^verbatim>\<open>commit()\<close> or \<^verbatim>\<open>revert()\<close> was called at depth 0, and the backend has capacity \<open>\<ge> 1\<close>,
  \<^verbatim>\<open>put(A, undefined)\<close> returns and so does \<^verbatim>\<open>del(A)\<close>, and the \<^verbatim>\<open>get(A)\<close> that follows
  returns an element whose payload is absent. On a key never written, \<^verbatim>\<open>get\<close> returns no
  element, after any sequence of calls that does not write the key. The two results
  differ.
\<close>

theorem negative_entry_distinct:
  assumes "at_index (diffCache s) (checkpoints s) = Some d" and "capacity_positive (cache s)"
    and "unwritten k s0" and "\<forall>c\<in>set cs. \<not> writes_key k c"
  shows "(\<exists>s1. put serialize k None s = Inr s1 \<and> fst (get k s1) = Some (AccountCacheElement None))
         \<and> (\<exists>s2. del k s = Inr s2 \<and> fst (get k s2) = Some (AccountCacheElement None))
         \<and> fst (get k (perform_all serialize cs s0)) = None"
proof -
  from mutate_written [OF assms(1), of serialize "Put k None"] assms(2)
  have a: "\<exists>s1. put serialize k None s = Inr s1 \<and> fst (get k s1) = Some (AccountCacheElement None)"
    by (auto simp: get_fst)
  from mutate_written [OF assms(1), of serialize "Del k"] assms(2)
  have b: "\<exists>s2. del k s = Inr s2 \<and> fst (get k s2) = Some (AccountCacheElement None)"
    by (auto simp: get_fst)
  have "unwritten k (perform_all serialize cs s0)"
    using assms(3,4) by (rule perform_all_unwritten)
  then have c: "fst (get k (perform_all serialize cs s0)) = None"
    by (simp add: get_fst unwritten_iff)
  show ?thesis using a b c by blast
qed

text \<open>
  The theorem on a new cache with a bounded store of capacity 1.
\<close>

theorem negative_entry_distinct_witness:
  "at_index (diffCache (new_AccountCache (LRU 1))) (checkpoints (new_AccountCache (LRU 1))) = Some []
   \<and> capacity_positive (cache (new_AccountCache (LRU 1)))
   \<and> unwritten ''aa'' (new_AccountCache (LRU 1))
   \<and> list_all (\<lambda>c. \<not> writes_key ''aa'' c)
        [Mutate (Put ''bb'' (Some [1 :: 8 word])), Checkpoint, Get ''aa'', Commit, Flush]
   \<and> (\<exists>s1. put (\<lambda>b :: Buffer. b) ''aa'' None (new_AccountCache (LRU 1)) = Inr s1
          \<and> fst (get ''aa'' s1) = Some (AccountCacheElement None))
   \<and> (\<exists>s2. del ''aa'' (new_AccountCache (LRU 1)) = Inr s2
          \<and> fst (get ''aa'' s2) = Some (AccountCacheElement None))
   \<and> fst (get ''aa''
        (perform_all (\<lambda>b. b)
           [Mutate (Put ''bb'' (Some [1])), Checkpoint, Get ''aa'', Commit, Flush]
           (new_AccountCache (LRU 1)))) = None"
proof -
  let ?s = "new_AccountCache (LRU 1)"
  let ?cs = "[Mutate (Put ''bb'' (Some [1 :: 8 word])), Checkpoint, Get ''aa'', Commit, Flush]"
  have top: "at_index (diffCache ?s) (checkpoints ?s) = Some []"
    by (simp add: new_AccountCache_def at_index_def)
  have cap: "capacity_positive (cache ?s)"
    by (simp add: new_AccountCache_def capacity_positive_def)
  have un: "unwritten ''aa'' ?s"
    by (simp add: unwritten_def new_AccountCache_def find_key_def)
  have cs: "\<forall>c\<in>set ?cs. \<not> writes_key ''aa'' c" by simp
  note r = negative_entry_distinct [OF top cap un cs, of "\<lambda>b. b"]
  have cs': "list_all (\<lambda>c. \<not> writes_key ''aa'' c) ?cs" by simp
  from top cap un cs' r [THEN conjunct1] r [THEN conjunct2, THEN conjunct1]
    r [THEN conjunct2, THEN conjunct2]
  show ?thesis by (intro conjI)
qed

text \<open>
  C7 as stated fails after \<^verbatim>\<open>revert()\<close> at depth 0 on a new cache: the depth is \<open>-1\<close> and no
  layer is left, \<^verbatim>\<open>put(aa, undefined)\<close> and \<^verbatim>\<open>del(aa)\<close> throw a TypeError before they
  write, and \<^verbatim>\<open>get(aa)\<close> returns no element.
\<close>

theorem negative_entry_distinct_counterexample:
  "revert (new_AccountCache ORDERED_MAP) =
     Inr \<lparr>checkpoints = - 1, diffCache = [], cache = OrderedMapCache [],
          stats = \<lparr>reads = 0, hits = 0, writes = 0, dels = 0\<rparr>\<rparr>
   \<and> put (\<lambda>b :: Buffer. b) ''aa'' None
       \<lparr>checkpoints = - 1, diffCache = [], cache = OrderedMapCache [],
         stats = \<lparr>reads = 0, hits = 0, writes = 0, dels = 0\<rparr>\<rparr> =
     Inl (TypeError,
          \<lparr>checkpoints = - 1, diffCache = [], cache = OrderedMapCache [],
           stats = \<lparr>reads = 0, hits = 0, writes = 0, dels = 0\<rparr>\<rparr>)
   \<and> del ''aa''
       \<lparr>checkpoints = - 1, diffCache = [], cache = OrderedMapCache [],
         stats = \<lparr>reads = 0, hits = 0, writes = 0, dels = 0\<rparr>\<rparr> =
     Inl (TypeError,
          \<lparr>checkpoints = - 1, diffCache = [], cache = OrderedMapCache [],
           stats = \<lparr>reads = 0, hits = 0, writes = 0, dels = 0\<rparr>\<rparr>)
   \<and> fst (get ''aa''
        \<lparr>checkpoints = - 1, diffCache = [], cache = OrderedMapCache [],
          stats = \<lparr>reads = 0, hits = 0, writes = 0, dels = 0\<rparr>\<rparr>) = None"
  by (simp add: method_defs)

subsection \<open>Mutations at depth 0\<close>

text \<open>
  C8, as amended. At depth 0 a put or del records the pre-image of its key in the base
  layer, as at any other depth: unless the base layer has an entry for the key already,
  it gets one with what the backend held for the key. The other layers are unchanged.
\<close>

theorem depth_zero_mutation_recorded:
  assumes "checkpoints s = 0" and "diffCache s = base # rest"
  shows "\<exists>s'. mutate serialize m s = Inr s' \<and> checkpoints s' = 0
           \<and> diffCache s' =
               (if find_key (mutation_key m) base \<noteq> None then base
                else setElement (mutation_key m) (lookup (cache s) (mutation_key m)) base) # rest"
proof -
  have "at_index (diffCache s) (checkpoints s) = Some base"
    using assms by (simp add: at_index_def)
  from mutate_effect [OF this, of serialize m] show ?thesis
    using assms by auto
qed

text \<open>
  The theorem for \<^verbatim>\<open>del(aa)\<close> on a new cache.
\<close>

theorem depth_zero_mutation_recorded_witness:
  "checkpoints (new_AccountCache ORDERED_MAP) = 0
   \<and> diffCache (new_AccountCache ORDERED_MAP) = [] # []
   \<and> (\<exists>s'. mutate (\<lambda>b. b) (Del ''aa'') (new_AccountCache ORDERED_MAP) = Inr s'
          \<and> checkpoints s' = 0 \<and> diffCache s' = [[(''aa'', None)]])"
  using depth_zero_mutation_recorded [of "new_AccountCache ORDERED_MAP" "[]" "[]" "\<lambda>b. b" "Del ''aa''"]
  by (simp add: new_AccountCache_def find_key_def)

text \<open>
  C8 as stated fails on a new cache: \<^verbatim>\<open>put(aa)\<close> and \<^verbatim>\<open>del(aa)\<close> at depth 0 each add
  the entry for \<open>aa\<close> to the base layer.
\<close>

theorem depth_zero_mutation_counterexample:
  "diffCache (new_AccountCache ORDERED_MAP) = [[]]
   \<and> put (\<lambda>b. b) ''aa'' (Some [1]) (new_AccountCache ORDERED_MAP) =
       Inr \<lparr>checkpoints = 0, diffCache = [[(''aa'', None)]],
            cache = OrderedMapCache [(''aa'', AccountCacheElement (Some [1]))],
            stats = \<lparr>reads = 0, hits = 0, writes = 1, dels = 0\<rparr>\<rparr>
   \<and> del ''aa'' (new_AccountCache ORDERED_MAP) =
       Inr \<lparr>checkpoints = 0, diffCache = [[(''aa'', None)]],
            cache = OrderedMapCache [(''aa'', AccountCacheElement None)],
            stats = \<lparr>reads = 0, hits = 0, writes = 0, dels = 1\<rparr>\<rparr>"
  by (simp add: method_defs)

subsection \<open>Removal of backend entries\<close>

text \<open>
  C9, as amended. Where the layer at the current depth exists, as it does unless
  \<^verbatim>\<open>commit()\<close> or \<^verbatim>\<open>revert()\<close> was called at depth 0, and the backend has capacity \<open>\<ge> 1\<close>: a
  put or del returns and its key is present afterwards, with the element written (for
  del, an element with absent payload); the entry of any other key is unchanged or, in
  the bounded store, evicted; nothing is evicted in the unbounded map or while the key
  fits the capacity. \<^verbatim>\<open>get\<close>, \<^verbatim>\<open>flush\<close> and \<^verbatim>\<open>commit\<close> leave every backend entry as it is.
  After \<^verbatim>\<open>del(A)\<close>, \<^verbatim>\<open>get(A)\<close> finds the entry and counts a hit. Eviction apart, only
  \<^verbatim>\<open>revert\<close> removes a key.
\<close>

theorem eviction_apart_only_revert_removes:
  assumes "at_index (diffCache s) (checkpoints s) = Some d" and "capacity_positive (cache s)"
  shows "(\<exists>s1. mutate serialize m s = Inr s1
            \<and> lookup (cache s1) (mutation_key m) = Some (mutation_elem serialize m)
            \<and> (\<forall>k'. k' \<noteq> mutation_key m \<longrightarrow>
                 lookup (cache s1) k' = lookup (cache s) k' \<or> lookup (cache s1) k' = None)
            \<and> (fits [mutation_key m] (cache s) \<longrightarrow>
                 lookup (cache s1) = (lookup (cache s))(mutation_key m \<mapsto> mutation_elem serialize m)))
         \<and> (\<exists>s2. del k s = Inr s2 \<and> lookup (cache s2) k = Some (AccountCacheElement None)
               \<and> fst (get k s2) = Some (AccountCacheElement None)
               \<and> hits (stats (snd (get k s2))) = hits (stats s2) + 1)
         \<and> lookup (cache (snd (get k s))) = lookup (cache s)
         \<and> (\<exists>items s3. flush s = Inr (items, s3) \<and> lookup (cache s3) = lookup (cache s))
         \<and> cache (state_after (commit s)) = cache s"
proof -
  have a: "\<exists>s1. mutate serialize m s = Inr s1
            \<and> lookup (cache s1) (mutation_key m) = Some (mutation_elem serialize m)
            \<and> (\<forall>k'. k' \<noteq> mutation_key m \<longrightarrow>
                 lookup (cache s1) k' = lookup (cache s) k' \<or> lookup (cache s1) k' = None)
            \<and> (fits [mutation_key m] (cache s) \<longrightarrow>
                 lookup (cache s1) = (lookup (cache s))(mutation_key m \<mapsto> mutation_elem serialize m))"
    using mutate_written [OF assms(1), of serialize m] assms(2) by blast
  from mutate_written [OF assms(1), of serialize "Del k"] assms(2)
  obtain s2 where s2: "del k s = Inr s2" "lookup (cache s2) k = Some (AccountCacheElement None)"
    by auto
  have b: "\<exists>s2. del k s = Inr s2 \<and> lookup (cache s2) k = Some (AccountCacheElement None)
               \<and> fst (get k s2) = Some (AccountCacheElement None)
               \<and> hits (stats (snd (get k s2))) = hits (stats s2) + 1"
    using s2 get_hit [of s2 k] by (auto simp: get_fst)
  have c: "\<exists>items s3. flush s = Inr (items, s3) \<and> lookup (cache s3) = lookup (cache s)"
    using flush_eq [OF assms(1)] by auto
  show ?thesis using a b c get_lookup [of k s] commit_cache [of s] by blast
qed

text \<open>
  The theorem on a bounded store of capacity 2 that holds \<open>aa\<close>.
\<close>

theorem eviction_apart_only_revert_removes_witness:
  "at_index [[(''aa'', None :: AccountCacheElement option)]] 0 = Some [(''aa'', None)]
   \<and> capacity_positive (LruCache (LRUCache 2 [(''aa'', AccountCacheElement (Some [1]))]))
   \<and> fits [''bb''] (LruCache (LRUCache 2 [(''aa'', AccountCacheElement (Some [1]))]))
   \<and> (\<exists>s1. put (\<lambda>b. b) ''bb'' (Some [2])
              \<lparr>checkpoints = 0, diffCache = [[(''aa'', None)]],
                cache = LruCache (LRUCache 2 [(''aa'', AccountCacheElement (Some [1]))]),
                stats = \<lparr>reads = 0, hits = 0, writes = 1, dels = 0\<rparr>\<rparr> = Inr s1
          \<and> lookup (cache s1) ''bb'' = Some (AccountCacheElement (Some [2]))
          \<and> lookup (cache s1) ''aa'' = Some (AccountCacheElement (Some [1])))
   \<and> (\<exists>s2. del ''aa''
              \<lparr>checkpoints = 0, diffCache = [[(''aa'', None)]],
                cache = LruCache (LRUCache 2 [(''aa'', AccountCacheElement (Some [1]))]),
                stats = \<lparr>reads = 0, hits = 0, writes = 1, dels = 0\<rparr>\<rparr> = Inr s2
          \<and> fst (get ''aa'' s2) = Some (AccountCacheElement None)
          \<and> hits (stats (snd (get ''aa'' s2))) = hits (stats s2) + 1)"
proof -
  let ?s = "\<lparr>checkpoints = 0, diffCache = [[(''aa'', None)]],
                cache = LruCache (LRUCache 2 [(''aa'', AccountCacheElement (Some [1]))]),
                stats = \<lparr>reads = 0, hits = 0, writes = 1, dels = 0\<rparr>\<rparr>"
  have top: "at_index (diffCache ?s) (checkpoints ?s) = Some [(''aa'', None)]"
    by (simp add: at_index_def)
  have cap: "capacity_positive (cache ?s)" by (simp add: capacity_positive_def)
  have fit: "fits [''bb''] (cache ?s)" by (simp add: fits_def)
  note r = eviction_apart_only_revert_removes
             [OF top cap, of "\<lambda>b. b" "Put ''bb'' (Some [2])" "''aa''"]
  from r obtain s1 where s1: "mutate (\<lambda>b. b) (Put ''bb'' (Some [2])) ?s = Inr s1"
    "fits [mutation_key (Put ''bb'' (Some [2 :: 8 word]))] (cache ?s) \<longrightarrow>
       lookup (cache s1) =
         (lookup (cache ?s))(mutation_key (Put ''bb'' (Some [2 :: 8 word]))
            \<mapsto> mutation_elem (\<lambda>b. b) (Put ''bb'' (Some [2])))"
    by auto
  have a: "\<exists>s1. put (\<lambda>b. b) ''bb'' (Some [2]) ?s = Inr s1
          \<and> lookup (cache s1) ''bb'' = Some (AccountCacheElement (Some [2]))
          \<and> lookup (cache s1) ''aa'' = Some (AccountCacheElement (Some [1]))"
    using s1 fit by (intro exI [of _ s1]) simp
  from r obtain s2 where s2: "del ''aa'' ?s = Inr s2"
    "fst (get ''aa'' s2) = Some (AccountCacheElement None)"
    "hits (stats (snd (get ''aa'' s2))) = hits (stats s2) + 1"
    by auto
  then have b: "\<exists>s2. del ''aa'' ?s = Inr s2
          \<and> fst (get ''aa'' s2) = Some (AccountCacheElement None)
          \<and> hits (stats (snd (get ''aa'' s2))) = hits (stats s2) + 1"
    by (intro exI [of _ s2]) simp
  show ?thesis using top cap fit a b by simp
qed

text \<open>
  C9 as stated fails on a bounded store of capacity 1 that holds \<open>aa\<close>: \<^verbatim>\<open>put(bb)\<close>
  removes \<open>aa\<close> from the backend.
\<close>

theorem eviction_apart_only_revert_removes_counterexample:
  "put (\<lambda>b. b) ''aa'' (Some [1]) (new_AccountCache (LRU 1)) =
     Inr \<lparr>checkpoints = 0, diffCache = [[(''aa'', None)]],
          cache = LruCache (LRUCache 1 [(''aa'', AccountCacheElement (Some [1]))]),
          stats = \<lparr>reads = 0, hits = 0, writes = 1, dels = 0\<rparr>\<rparr>
   \<and> put (\<lambda>b. b) ''bb'' (Some [2])
     \<lparr>checkpoints = 0, diffCache = [[(''aa'', None)]],
       cache = LruCache (LRUCache 1 [(''aa'', AccountCacheElement (Some [1]))]),
       stats = \<lparr>reads = 0, hits = 0, writes = 1, dels = 0\<rparr>\<rparr> =
     Inr \<lparr>checkpoints = 0, diffCache = [[(''aa'', None), (''bb'', None)]],
          cache = LruCache (LRUCache 1 [(''bb'', AccountCacheElement (Some [2]))]),
          stats = \<lparr>reads = 0, hits = 0, writes = 2, dels = 0\<rparr>\<rparr>
   \<and> lookup (LruCache (LRUCache 1 [(''aa'', AccountCacheElement (Some [1]))])) ''aa''
       = Some (AccountCacheElement (Some [1]))
   \<and> lookup (LruCache (LRUCache 1 [(''bb'', AccountCacheElement (Some [2]))])) ''aa'' = None"
  by (simp add: method_defs)

end
